theory Spec2Isabelle
  imports Complex_Main "HOL-Library.Word" "HOL-Library.Log_Nat"
begin

unbundle bit_operations_syntax

section \<open>Single-precision arithmetic\<close>

text \<open>
  The scanner of \<^verbatim>\<open>scan.c\<close> computes with C \<^verbatim>\<open>float\<close>. The model is IEEE 754
  binary32 with round-to-nearest-even and gradual underflow, every operation rounded on its
  own: a finite value is the rational it denotes, and \<open>round32\<close> maps an exact result to
  the nearest representable value. The two zeros are not told apart: the program never
  divides by a negative zero and never inspects the sign of a zero.
\<close>

datatype float = Fin rat | PInf | NInf | NaN

definition pow2 :: "int \<Rightarrow> rat" where
  "pow2 e = (if 0 \<le> e then 2 ^ nat e else 1 / 2 ^ nat (- e))"

text \<open>The binary exponent of a positive rational: \<open>pow2 (ilog2 a) \<le> a < pow2 (ilog2 a + 1)\<close>.\<close>

definition ilog2 :: "rat \<Rightarrow> int" where
  "ilog2 a = (let (n, d) = quotient_of a; e = bitlen n - bitlen d
              in if pow2 e \<le> a then e else e - 1)"

text \<open>Rounding to the nearest integer, a tie to the even one.\<close>

definition rne :: "rat \<Rightarrow> int" where
  "rne y = (let f = \<lfloor>y\<rfloor>; r = y - of_int f
            in if r < 1 / 2 then f else if 1 / 2 < r then f + 1
               else if even f then f else f + 1)"

definition round32 :: "rat \<Rightarrow> float" where
  "round32 x =
     (if x = 0 then Fin 0
      else let a = \<bar>x\<bar>;
               e = max (ilog2 a) (- 126);
               q = pow2 (e - 23);
               r = of_int (rne (a / q)) * q
           in if pow2 128 \<le> r then (if 0 < x then PInf else NInf)
              else Fin (if 0 < x then r else - r))"

fun fneg :: "float \<Rightarrow> float" where
  "fneg (Fin a) = Fin (- a)"
| "fneg PInf = NInf"
| "fneg NInf = PInf"
| "fneg NaN = NaN"

fun fabsf :: "float \<Rightarrow> float" where
  "fabsf (Fin a) = Fin \<bar>a\<bar>"
| "fabsf PInf = PInf"
| "fabsf NInf = PInf"
| "fabsf NaN = NaN"

fun fadd :: "float \<Rightarrow> float \<Rightarrow> float" where
  "fadd (Fin a) (Fin b) = round32 (a + b)"
| "fadd (Fin a) PInf = PInf"
| "fadd (Fin a) NInf = NInf"
| "fadd PInf (Fin b) = PInf"
| "fadd PInf PInf = PInf"
| "fadd NInf (Fin b) = NInf"
| "fadd NInf NInf = NInf"
| "fadd PInf NInf = NaN"
| "fadd NInf PInf = NaN"
| "fadd NaN y = NaN"
| "fadd x NaN = NaN"

definition fsub :: "float \<Rightarrow> float \<Rightarrow> float" where
  "fsub x y = fadd x (fneg y)"

text \<open>The sign of an infinite product or quotient: \<open>PInf\<close> when \<open>pos\<close>, else \<open>NInf\<close>.\<close>

definition inf_of :: "bool \<Rightarrow> float" where
  "inf_of pos = (if pos then PInf else NInf)"

fun fmul :: "float \<Rightarrow> float \<Rightarrow> float" where
  "fmul (Fin a) (Fin b) = round32 (a * b)"
| "fmul (Fin a) PInf = (if a = 0 then NaN else inf_of (0 < a))"
| "fmul (Fin a) NInf = (if a = 0 then NaN else inf_of (a < 0))"
| "fmul PInf (Fin b) = (if b = 0 then NaN else inf_of (0 < b))"
| "fmul NInf (Fin b) = (if b = 0 then NaN else inf_of (b < 0))"
| "fmul PInf PInf = PInf"
| "fmul PInf NInf = NInf"
| "fmul NInf PInf = NInf"
| "fmul NInf NInf = PInf"
| "fmul NaN y = NaN"
| "fmul x NaN = NaN"

fun fdiv :: "float \<Rightarrow> float \<Rightarrow> float" where
  "fdiv (Fin a) (Fin b) =
     (if b = 0 then (if a = 0 then NaN else inf_of (0 < a)) else round32 (a / b))"
| "fdiv (Fin a) PInf = Fin 0"
| "fdiv (Fin a) NInf = Fin 0"
| "fdiv PInf (Fin b) = inf_of (0 \<le> b)"
| "fdiv NInf (Fin b) = inf_of (b < 0)"
| "fdiv PInf PInf = NaN"
| "fdiv PInf NInf = NaN"
| "fdiv NInf PInf = NaN"
| "fdiv NInf NInf = NaN"
| "fdiv NaN y = NaN"
| "fdiv x NaN = NaN"

text \<open>The comparison \<^verbatim>\<open><\<close>; every comparison with a NaN is false.\<close>

fun flt :: "float \<Rightarrow> float \<Rightarrow> bool" where
  "flt (Fin a) (Fin b) = (a < b)"
| "flt (Fin a) PInf = True"
| "flt NInf (Fin b) = True"
| "flt NInf PInf = True"
| "flt x y = False"

definition fgt :: "float \<Rightarrow> float \<Rightarrow> bool" where
  "fgt x y = flt y x"

text \<open>A decimal literal with suffix \<^verbatim>\<open>F\<close>, and the conversion of an \<^verbatim>\<open>int\<close>.\<close>

definition lit :: "rat \<Rightarrow> float" where
  "lit r = round32 r"

definition float_of_int :: "int \<Rightarrow> float" where
  "float_of_int i = round32 (of_int i)"

text \<open>
  The conversion of a \<^verbatim>\<open>float\<close> to \<^verbatim>\<open>int16_t\<close> truncates towards zero. Outside the
  range of the target type C leaves it undefined; the model takes what the target
  (Cortex-M4F: a saturating conversion to 32 bits, NaN to 0, then a halfword store) yields.
\<close>

definition trunc :: "rat \<Rightarrow> int" where
  "trunc r = (if 0 \<le> r then \<lfloor>r\<rfloor> else - \<lfloor>- r\<rfloor>)"

fun int32_of_float :: "float \<Rightarrow> int" where
  "int32_of_float (Fin r) = max (- 2147483648) (min 2147483647 (trunc r))"
| "int32_of_float PInf = 2147483647"
| "int32_of_float NInf = - 2147483648"
| "int32_of_float NaN = 0"

text \<open>An \<^verbatim>\<open>int16_t\<close> is a 16-bit word, read as two's complement by \<open>sint\<close>.\<close>

type_synonym int16 = "16 word"

definition int16_of_float :: "float \<Rightarrow> int16" where
  "int16_of_float x = word_of_int (int32_of_float x)"

text \<open>
  Division of \<^verbatim>\<open>int\<close> truncates towards zero. A zero divisor is undefined in C; the
  target's \<^verbatim>\<open>SDIV\<close> returns 0.
\<close>

definition cdiv :: "int \<Rightarrow> int \<Rightarrow> int" where
  "cdiv a b = (if b = 0 then 0 else sgn a * sgn b * (\<bar>a\<bar> div \<bar>b\<bar>))"

section \<open>Data model of \<^verbatim>\<open>scan.c\<close>\<close>

abbreviation (input) SAMPLING_RATE :: int where "SAMPLING_RATE \<equiv> 16000"
abbreviation (input) MAX_NUM_PEAKS :: nat where "MAX_NUM_PEAKS \<equiv> 16"
abbreviation (input) KNOCK_MAX_SPAN :: int where "KNOCK_MAX_SPAN \<equiv> 12000"
abbreviation (input) KNOCK_MIN_SPAN :: int where "KNOCK_MIN_SPAN \<equiv> 4000"
abbreviation (input) WINDOW_BITS :: nat where "WINDOW_BITS \<equiv> 8"
abbreviation (input) WINDOW_SIZE :: nat where "WINDOW_SIZE \<equiv> 256"
abbreviation (input) WINDOW_MASK :: nat where "WINDOW_MASK \<equiv> 255"
abbreviation (input) NORMALIZATION_LEVEL :: int where "NORMALIZATION_LEVEL \<equiv> 128"
abbreviation (input) ANALYSIS_INTERVAL :: int where "ANALYSIS_INTERVAL \<equiv> 1600"

abbreviation (input) SCAN_KNOCK_DETECTED :: int where "SCAN_KNOCK_DETECTED \<equiv> 1"
abbreviation (input) SCAN_BELL_DETECTED :: int where "SCAN_BELL_DETECTED \<equiv> 2"

abbreviation (input) SCAN_HIGH_SENSITIVITY :: int where "SCAN_HIGH_SENSITIVITY \<equiv> 1"
abbreviation (input) SCAN_DISP_THRESHOLDS :: int where "SCAN_DISP_THRESHOLDS \<equiv> 2"
abbreviation (input) SCAN_DISP_EVENTS :: int where "SCAN_DISP_EVENTS \<equiv> 4"
abbreviation (input) SCAN_DISP_PEAKS :: int where "SCAN_DISP_PEAKS \<equiv> 8"
abbreviation (input) SCAN_OUTP_DECORR_AUDIO :: int where "SCAN_OUTP_DECORR_AUDIO \<equiv> 16"
abbreviation (input) SCAN_OUTP_DECORR_LEVEL :: int where "SCAN_OUTP_DECORR_LEVEL \<equiv> 32"
abbreviation (input) SCAN_OUTP_NORMAL_AUDIO :: int where "SCAN_OUTP_NORMAL_AUDIO \<equiv> 64"
abbreviation (input) SCAN_OUTP_WINDOW_LEVEL :: int where "SCAN_OUTP_WINDOW_LEVEL \<equiv> 128"
abbreviation (input) SCAN_OUTP_FILTER_AUDIO :: int where "SCAN_OUTP_FILTER_AUDIO \<equiv> 256"
abbreviation (input) SCAN_OUTP_FILTER_LEVEL :: int where "SCAN_OUTP_FILTER_LEVEL \<equiv> 512"

text \<open>The test \<^verbatim>\<open>flags & BIT\<close> of the source.\<close>

definition flag_set :: "int \<Rightarrow> int \<Rightarrow> bool" where
  "flag_set flags b = (flags AND b \<noteq> 0)"

definition KNOCK_MAX_RATIO :: "int \<Rightarrow> float" where
  "KNOCK_MAX_RATIO flags =
     (if flag_set flags SCAN_HIGH_SENSITIVITY then lit (12 / 10) else lit (11 / 10))"

definition THRESHOLD_SCALING :: "int \<Rightarrow> float" where
  "THRESHOLD_SCALING flags =
     (if flag_set flags SCAN_HIGH_SENSITIVITY then lit (125 / 100) else lit (15 / 10))"

definition SPURIOUS_REJECTION_RATIO :: "int \<Rightarrow> float" where
  "SPURIOUS_REJECTION_RATIO flags =
     (if flag_set flags SCAN_HIGH_SENSITIVITY then lit (75 / 100) else lit (5 / 10))"

record biquad =
  a0 :: float
  a1 :: float
  a2 :: float
  b1 :: float
  b2 :: float
  in_d1 :: float
  in_d2 :: float
  out_d1 :: float
  out_d2 :: float

text \<open>
  \<^verbatim>\<open>struct peak\<close>. Its field \<^verbatim>\<open>filtered_level\<close> is named \<open>filtered_level_at_start\<close>
  here, apart from the static variable \<^verbatim>\<open>filtered_level\<close> of the scanner.
\<close>

record peak =
  time :: int
  area :: int
  width :: int
  height :: int
  filter_hits :: int
  filtered_level_at_start :: float

text \<open>
  The lines \<^verbatim>\<open>Dbg_printf\<close> receives, one constructor for each format string with the
  values printed (a time as its sample count, where the source formats it with
  \<^verbatim>\<open>time_format\<close>). \<^verbatim>\<open>Dbg_printf\<close> is external; it is taken to leave the statics of the
  scanner alone.
\<close>

datatype dbg_msg =
    Msg_peak_added int int int float
  | Msg_thresholds float float
  | Msg_discarded_newest int
  | Msg_discarded_smallest int
  | Msg_knock int int float "int list" "int list"
  | Msg_ring int float float float

text \<open>
  The static variables of the module and of \<^verbatim>\<open>scan_audio\<close>. The array
  \<^verbatim>\<open>peak_buffer\<close> together with \<^verbatim>\<open>num_peaks\<close> is the list of its first
  \<^verbatim>\<open>num_peaks\<close> entries: no statement of the source reads an entry at or beyond
  \<^verbatim>\<open>num_peaks\<close>. An \<^verbatim>\<open>int\<close> is an unbounded integer (signed overflow is undefined
  in C).
\<close>

record scan_state =
  bell_biquad :: biquad
  current_peak :: peak
  peak_buffer :: "peak list"
  sample_window :: "int16 list"
  sample_index :: int
  filtered_level :: float
  decorrelated_level :: float
  peak_threshold :: float
  peak_started :: int
  window_index :: nat
  window_sum :: int
  last_sample :: int16
  weight :: int16

abbreviation num_peaks :: "scan_state \<Rightarrow> nat" where
  "num_peaks s \<equiv> length (peak_buffer s)"

text \<open>The values the statics have when the program is loaded.\<close>

definition zero_biquad :: biquad where
  "zero_biquad = \<lparr>a0 = Fin 0, a1 = Fin 0, a2 = Fin 0, b1 = Fin 0, b2 = Fin 0,
     in_d1 = Fin 0, in_d2 = Fin 0, out_d1 = Fin 0, out_d2 = Fin 0\<rparr>"

definition zero_peak :: peak where
  "zero_peak = \<lparr>time = 0, area = 0, width = 0, height = 0, filter_hits = 0,
     filtered_level_at_start = Fin 0\<rparr>"

definition static_init :: scan_state where
  "static_init = \<lparr>bell_biquad = zero_biquad, current_peak = zero_peak, peak_buffer = [],
     sample_window = replicate WINDOW_SIZE 0, sample_index = 0, filtered_level = Fin 0,
     decorrelated_level = lit 32760, peak_threshold = lit 30, peak_started = 0,
     window_index = 0, window_sum = 0, last_sample = 0, weight = 0\<rparr>"

section \<open>The bell filter\<close>

definition biquad_init ::
  "float \<Rightarrow> float \<Rightarrow> float \<Rightarrow> float \<Rightarrow> float \<Rightarrow> float \<Rightarrow> biquad" where
  "biquad_init gain c0 c1 c2 d1 d2 =
     \<lparr>a0 = fmul c0 gain, a1 = fmul c1 gain, a2 = fmul c2 gain, b1 = d1, b2 = d2,
      in_d1 = Fin 0, in_d2 = Fin 0, out_d1 = Fin 0, out_d2 = Fin 0\<rparr>"

definition biquad_apply :: "biquad \<Rightarrow> float \<Rightarrow> biquad \<times> float" where
  "biquad_apply f input =
     (let sum = fsub (fsub (fadd (fadd (fmul input (a0 f)) (fmul (in_d1 f) (a1 f)))
                                 (fmul (in_d2 f) (a2 f)))
                           (fmul (b1 f) (out_d1 f)))
                     (fmul (b2 f) (out_d2 f))
      in (f\<lparr>out_d2 := out_d1 f, out_d1 := sum, in_d2 := in_d1 f, in_d1 := input\<rparr>, sum))"

text \<open>\<^verbatim>\<open>scan_audio_init\<close>: the 770 Hz coefficients, gain 4.\<close>

definition scan_audio_init :: "scan_state \<Rightarrow> scan_state" where
  "scan_audio_init s =
     s\<lparr>bell_biquad := biquad_init (lit 4)
          (lit (14867434962988915 / 10 ^ 19)) (lit 0)
          (fneg (lit (14867434962988915 / 10 ^ 19)))
          (fneg (lit (19064233259820802 / 10 ^ 16)))
          (lit (9970265130074023 / 10 ^ 16))\<rparr>"

section \<open>The peak buffer\<close>

definition dbg :: "int \<Rightarrow> int \<Rightarrow> dbg_msg \<Rightarrow> dbg_msg list" where
  "dbg flags b m = (if flag_set flags b then [m] else [])"

text \<open>
  The search of \<^verbatim>\<open>add_peak\<close> for the lowest buffered peak below the new one: the pair
  is \<^verbatim>\<open>(smallest_peak_height, smallest_peak_index)\<close>, the index \<open>- 1\<close> while none is found.
\<close>

fun smallest_peak :: "peak list \<Rightarrow> int \<Rightarrow> int \<times> int \<Rightarrow> int \<times> int" where
  "smallest_peak [] i acc = acc"
| "smallest_peak (p # ps) i (h, k) =
     smallest_peak ps (i + 1) (if height p < h then (height p, i) else (h, k))"

definition add_peak :: "peak \<Rightarrow> int \<Rightarrow> peak list \<Rightarrow> peak list \<times> dbg_msg list" where
  "add_peak new_peak flags buf =
     (if length buf = MAX_NUM_PEAKS then
        (let (smallest_peak_height, smallest_peak_index) =
               smallest_peak buf 0 (height new_peak, - 1)
         in if smallest_peak_index = - 1
            then (buf, dbg flags SCAN_DISP_EVENTS (Msg_discarded_newest (height new_peak)))
            else (take (nat smallest_peak_index) buf @ drop (nat smallest_peak_index + 1) buf
                    @ [new_peak],
                  dbg flags SCAN_DISP_EVENTS (Msg_discarded_smallest smallest_peak_height)))
      else (buf @ [new_peak], []))"

section \<open>\<^verbatim>\<open>check_peaks\<close>\<close>

text \<open>The first loop: peaks older than twice the longest knock are dropped from the front.\<close>

fun expire_peaks :: "int \<Rightarrow> peak list \<Rightarrow> peak list" where
  "expire_peaks si [] = []"
| "expire_peaks si (p # ps) =
     (if time p + KNOCK_MAX_SPAN * 2 < si then expire_peaks si ps else p # ps)"

text \<open>
  The innermost loop of the knock search looks for a peak other than the three that lies
  near them in time and is higher than \<open>min_height\<close>; it returns the value of \<^verbatim>\<open>i\<close> at which
  it leaves, which is the length of the buffer when there is none.
\<close>

function spurious_scan ::
  "peak list \<Rightarrow> nat \<Rightarrow> nat \<Rightarrow> nat \<Rightarrow> int \<Rightarrow> float \<Rightarrow> nat \<Rightarrow> nat" where
  "spurious_scan buf p1 p2 p3 spn min_height i =
     (if i < length buf then
        (if i \<noteq> p1 \<and> i \<noteq> p2 \<and> i \<noteq> p3 \<and>
            time (buf ! i) > time (buf ! p1) - cdiv spn 3 \<and>
            time (buf ! i) < time (buf ! p3) + cdiv spn 3 \<and>
            fgt (float_of_int (height (buf ! i))) min_height
         then i
         else spurious_scan buf p1 p2 p3 spn min_height (i + 1))
      else i)"
  by pat_completeness auto
termination
  by (relation "measure (\<lambda>(buf, p1, p2, p3, spn, min_height, i). length buf - i)") auto

declare spurious_scan.simps [simp del]

definition knock_ratio :: "peak list \<Rightarrow> nat \<Rightarrow> nat \<Rightarrow> nat \<Rightarrow> float" where
  "knock_ratio buf p1 p2 p3 =
     (let d1 = time (buf ! p2) - time (buf ! p1);
          d2 = time (buf ! p3) - time (buf ! p2)
      in if d1 > d2 then fdiv (float_of_int d1) (float_of_int d2)
         else fdiv (float_of_int d2) (float_of_int d1))"

definition knock_min_height :: "int \<Rightarrow> peak list \<Rightarrow> nat \<Rightarrow> nat \<Rightarrow> nat \<Rightarrow> float" where
  "knock_min_height flags buf p1 p2 p3 =
     (let m1 = float_of_int (height (buf ! p1));
          m2 = (if flt (float_of_int (height (buf ! p2))) m1
                then float_of_int (height (buf ! p2)) else m1);
          m3 = (if flt (float_of_int (height (buf ! p3))) m2
                then float_of_int (height (buf ! p3)) else m2)
      in fmul m3 (SPURIOUS_REJECTION_RATIO flags))"

text \<open>The body of the loop over \<^verbatim>\<open>p3\<close>: whether the three peaks are taken for a knock.\<close>

definition knock_test :: "int \<Rightarrow> int \<Rightarrow> peak list \<Rightarrow> nat \<Rightarrow> nat \<Rightarrow> nat \<Rightarrow> bool" where
  "knock_test flags si buf p1 p2 p3 =
     (let spn = time (buf ! p3) - time (buf ! p1)
      in if spn > KNOCK_MIN_SPAN \<and> spn < KNOCK_MAX_SPAN \<and>
            width (buf ! p1) < 512 \<and> width (buf ! p2) < 512 \<and> width (buf ! p3) < 512 \<and>
            time (buf ! p3) + cdiv spn 2 < si
         then spurious_scan buf p1 p2 p3 spn (knock_min_height flags buf p1 p2 p3) 0
                = length buf \<and>
              flt (knock_ratio buf p1 p2 p3) (KNOCK_MAX_RATIO flags)
         else False)"

definition knock_msg :: "peak list \<Rightarrow> nat \<Rightarrow> nat \<Rightarrow> nat \<Rightarrow> dbg_msg" where
  "knock_msg buf p1 p2 p3 =
     Msg_knock (time (buf ! p1)) (time (buf ! p3) - time (buf ! p1)) (knock_ratio buf p1 p2 p3)
       [height (buf ! p1), height (buf ! p2), height (buf ! p3)]
       [cdiv (area (buf ! p1)) (height (buf ! p1)), cdiv (area (buf ! p2)) (height (buf ! p2)),
        cdiv (area (buf ! p3)) (height (buf ! p3))]"

text \<open>
  The loops thread \<^verbatim>\<open>detections\<close>, the buffer and the lines printed. A knock sets
  \<^verbatim>\<open>num_peaks = 0\<close>, which empties the buffer and ends all three loops.
\<close>

type_synonym check_st = "int \<times> peak list \<times> dbg_msg list"

definition knock_body :: "int \<Rightarrow> int \<Rightarrow> nat \<Rightarrow> nat \<Rightarrow> nat \<Rightarrow> check_st \<Rightarrow> check_st" where
  "knock_body flags si p1 p2 p3 st =
     (case st of (detections, buf, msgs) \<Rightarrow>
        if knock_test flags si buf p1 p2 p3
        then (detections OR SCAN_KNOCK_DETECTED, [],
              msgs @ dbg flags SCAN_DISP_EVENTS (knock_msg buf p1 p2 p3))
        else (detections, buf, msgs))"

lemma knock_body_length:
  "length (fst (snd (knock_body flags si p1 p2 p3 (d, buf, msgs)))) \<le> length buf"
  by (simp add: knock_body_def)

function knock_loop3 ::
  "int \<Rightarrow> int \<Rightarrow> nat \<Rightarrow> nat \<Rightarrow> nat \<Rightarrow> check_st \<Rightarrow> check_st" where
  "knock_loop3 flags si p1 p2 p3 (detections, buf, msgs) =
     (if detections = 0 \<and> p3 < length buf
      then knock_loop3 flags si p1 p2 (p3 + 1)
             (knock_body flags si p1 p2 p3 (detections, buf, msgs))
      else (detections, buf, msgs))"
  by pat_completeness auto
termination
  by (relation "measure (\<lambda>(flags, si, p1, p2, p3, d, buf, msgs). length buf - p3)")
     (auto simp: knock_body_def)

lemma knock_loop3_length:
  "length (fst (snd (knock_loop3 flags si p1 p2 p3 st))) \<le> length (fst (snd st))"
proof (induction flags si p1 p2 p3 st rule: knock_loop3.induct)
  case (1 flags si p1 p2 p3 detections buf msgs)
  show ?case
  proof (cases "detections = 0 \<and> p3 < length buf")
    case True
    have "length (fst (snd (knock_loop3 flags si p1 p2 (p3 + 1)
             (knock_body flags si p1 p2 p3 (detections, buf, msgs)))))
          \<le> length (fst (snd (knock_body flags si p1 p2 p3 (detections, buf, msgs))))"
      using 1 True by simp
    also have "\<dots> \<le> length buf" by (rule knock_body_length)
    finally show ?thesis using True by simp
  next
    case False
    then show ?thesis by auto
  qed
qed

lemma knock_loop3_length_le:
  "knock_loop3 flags si p1 p2 p3 (d, buf, msgs) = (d', buf', msgs') \<Longrightarrow> length buf' \<le> length buf"
  using knock_loop3_length [of flags si p1 p2 p3 "(d, buf, msgs)"] by simp

function knock_loop2 :: "int \<Rightarrow> int \<Rightarrow> nat \<Rightarrow> nat \<Rightarrow> check_st \<Rightarrow> check_st" where
  "knock_loop2 flags si p1 p2 (detections, buf, msgs) =
     (if p2 + 1 < length buf
      then knock_loop2 flags si p1 (p2 + 1)
             (knock_loop3 flags si p1 p2 (p2 + 1) (detections, buf, msgs))
      else (detections, buf, msgs))"
  by pat_completeness auto
termination
  by (relation "measure (\<lambda>(flags, si, p1, p2, d, buf, msgs). length buf - p2)")
     (auto simp del: knock_loop3.simps split: prod.splits dest!: knock_loop3_length_le)

lemma knock_loop2_length:
  "length (fst (snd (knock_loop2 flags si p1 p2 st))) \<le> length (fst (snd st))"
proof (induction flags si p1 p2 st rule: knock_loop2.induct)
  case (1 flags si p1 p2 detections buf msgs)
  show ?case
  proof (cases "p2 + 1 < length buf")
    case True
    have "length (fst (snd (knock_loop2 flags si p1 (p2 + 1)
             (knock_loop3 flags si p1 p2 (p2 + 1) (detections, buf, msgs)))))
          \<le> length (fst (snd (knock_loop3 flags si p1 p2 (p2 + 1) (detections, buf, msgs))))"
      using 1 True by simp
    also have "\<dots> \<le> length buf"
      using knock_loop3_length [of flags si p1 p2 "p2 + 1" "(detections, buf, msgs)"] by simp
    finally show ?thesis using True by simp
  next
    case False
    then show ?thesis by auto
  qed
qed

lemma knock_loop2_length_le:
  "knock_loop2 flags si p1 p2 (d, buf, msgs) = (d', buf', msgs') \<Longrightarrow> length buf' \<le> length buf"
  using knock_loop2_length [of flags si p1 p2 "(d, buf, msgs)"] by simp

function knock_loop1 :: "int \<Rightarrow> int \<Rightarrow> nat \<Rightarrow> check_st \<Rightarrow> check_st" where
  "knock_loop1 flags si p1 (detections, buf, msgs) =
     (if p1 + 2 < length buf
      then knock_loop1 flags si (p1 + 1)
             (knock_loop2 flags si p1 (p1 + 1) (detections, buf, msgs))
      else (detections, buf, msgs))"
  by pat_completeness auto
termination
  by (relation "measure (\<lambda>(flags, si, p1, d, buf, msgs). length buf - p1)")
     (auto simp del: knock_loop2.simps split: prod.splits dest!: knock_loop2_length_le)

declare knock_loop3.simps [simp del] knock_loop2.simps [simp del] knock_loop1.simps [simp del]

text \<open>The last loop: a peak less than a second old counts the ticks at which the bell level
  stands well above the level at its start, and the fifth such tick is a ring.\<close>

definition bell_hit :: "int \<Rightarrow> float \<Rightarrow> peak \<Rightarrow> bool" where
  "bell_hit si fl p =
     (time p + SAMPLING_RATE > si \<and>
      fgt fl (fadd (fmul (filtered_level_at_start p) (float_of_int 2)) (float_of_int 50)))"

definition ring_msg :: "int \<Rightarrow> float \<Rightarrow> peak \<Rightarrow> dbg_msg" where
  "ring_msg si fl p =
     Msg_ring (time p) (fdiv (float_of_int (si - time p)) (float_of_int SAMPLING_RATE))
       (filtered_level_at_start p) fl"

function bell_loop :: "int \<Rightarrow> int \<Rightarrow> float \<Rightarrow> nat \<Rightarrow> check_st \<Rightarrow> check_st" where
  "bell_loop flags si fl p1 (detections, buf, msgs) =
     (if p1 < length buf then
        (if bell_hit si fl (buf ! p1) then
           (let buf' = buf[p1 := (buf ! p1)\<lparr>filter_hits := filter_hits (buf ! p1) + 1\<rparr>]
            in if filter_hits (buf' ! p1) = 5
               then (detections OR SCAN_BELL_DETECTED, [],
                     msgs @ dbg flags SCAN_DISP_EVENTS (ring_msg si fl (buf' ! p1)))
               else bell_loop flags si fl (p1 + 1) (detections, buf', msgs))
         else bell_loop flags si fl (p1 + 1) (detections, buf, msgs))
      else (detections, buf, msgs))"
  by pat_completeness auto
termination
  by (relation "measure (\<lambda>(flags, si, fl, p1, d, buf, msgs). length buf - p1)") auto

declare bell_loop.simps [simp del]

text \<open>\<^verbatim>\<open>check_peaks\<close> returns the detections; the buffer it leaves and the lines it prints
  come with them.\<close>

definition check_peaks :: "int \<Rightarrow> scan_state \<Rightarrow> scan_state \<times> int \<times> dbg_msg list" where
  "check_peaks flags s =
     (let buf0 = expire_peaks (sample_index s) (peak_buffer s);
          st1 = knock_loop1 flags (sample_index s) 0 (0, buf0, []);
          (detections, buf, msgs) = bell_loop flags (sample_index s) (filtered_level s) 0 st1
      in (s\<lparr>peak_buffer := buf\<rparr>, detections, msgs))"

section \<open>\<^verbatim>\<open>scan_audio\<close>\<close>

text \<open>
  The body of the loop of \<^verbatim>\<open>scan_audio\<close> is split at its comments into the stages below.
  \<^verbatim>\<open>out_samples\<close> is \<open>None\<close> for a null pointer and else the list of the values written
  through it so far.
\<close>

definition outp :: "int16 list option \<Rightarrow> int \<Rightarrow> int \<Rightarrow> int16 \<Rightarrow> int16 list option" where
  "outp out_samples flags b v =
     (case out_samples of
        None \<Rightarrow> None
      | Some ws \<Rightarrow> if flag_set flags b then Some (ws @ [v]) else Some ws)"

text \<open>
  The decorrelator: the sample less the prediction from the last one, stored back into
  an \<^verbatim>\<open>int16_t\<close>, and the weight moved by the signs of that result and of the last sample.
\<close>

definition decorrelate :: "int16 \<Rightarrow> int16 \<Rightarrow> int16 \<Rightarrow> int16 \<times> int16" where
  "decorrelate w l x =
     (let sample = (word_of_int (sint x - drop_bit 10 (sint w * sint l + 512)) :: int16);
          w' = (if sample \<noteq> 0 \<and> l \<noteq> 0
                then word_of_int
                       (sint w + push_bit 1 (drop_bit 30 (sint sample XOR sint l) OR 1))
                else w)
      in (sample, w'))"

definition level_update :: "float \<Rightarrow> float \<Rightarrow> float" where
  "level_update level mag =
     fadd (fmul level (fdiv (Fin 255) (Fin 256))) (fmul mag (fdiv (Fin 1) (Fin 256)))"

definition normalize :: "int16 \<Rightarrow> float \<Rightarrow> float" where
  "normalize sample level =
     (let normalized_sample =
            fmul (fdiv (float_of_int (sint sample)) level) (float_of_int NORMALIZATION_LEVEL)
      in if fgt normalized_sample (lit 32760) then lit 32760
         else if flt normalized_sample (fneg (lit 32760)) then fneg (lit 32760)
         else normalized_sample)"

text \<open>The sliding window: the new \<^verbatim>\<open>sample_window\<close>, \<^verbatim>\<open>window_index\<close>,
  \<^verbatim>\<open>window_sum\<close> and the \<^verbatim>\<open>window_level\<close>.\<close>

definition window_step ::
  "int16 list \<Rightarrow> nat \<Rightarrow> int \<Rightarrow> float \<Rightarrow> int16 list \<times> nat \<times> int \<times> int16" where
  "window_step win idx wsum normalized_sample =
     (let wsum1 = wsum - sint (win ! idx);
          v = int16_of_float (fabsf normalized_sample);
          win' = win[idx := v];
          wsum2 = wsum1 + sint v;
          idx' = (idx + 1) AND WINDOW_MASK;
          window_level =
            (word_of_int (drop_bit WINDOW_BITS (wsum2 + int (WINDOW_SIZE div 2))
                          - NORMALIZATION_LEVEL) :: int16)
      in (win', idx', wsum2, window_level))"

definition filter_audio_out :: "float \<Rightarrow> int16" where
  "filter_audio_out filtered_sample =
     (if fgt filtered_sample (lit 32760) then 32760
      else if flt filtered_sample (fneg (lit 32760)) then - 32760
      else int16_of_float filtered_sample)"

text \<open>A complete peak: the two thresholds, the width and \<^verbatim>\<open>add_peak\<close>.\<close>

definition close_peak :: "int \<Rightarrow> scan_state \<Rightarrow> scan_state \<times> dbg_msg list" where
  "close_peak flags s =
     (let s1 = s\<lparr>peak_started := 0\<rparr>
      in if fgt (float_of_int (height (current_peak s1))) (peak_threshold s1) then
           (let s2 = s1\<lparr>peak_threshold := fmul (peak_threshold s1) (lit (101 / 100))\<rparr>
            in if fgt (float_of_int (height (current_peak s2)))
                      (fmul (peak_threshold s2) (THRESHOLD_SCALING flags)) then
                 (let cp = (current_peak s2)
                             \<lparr>width := cdiv (area (current_peak s2)) (height (current_peak s2))\<rparr>;
                      msgs1 = dbg flags SCAN_DISP_PEAKS
                                (Msg_peak_added (time cp) (height cp) (width cp)
                                   (filtered_level_at_start cp));
                      (buf, msgs2) = add_peak cp flags (peak_buffer s2)
                  in (s2\<lparr>current_peak := cp, peak_buffer := buf\<rparr>, msgs1 @ msgs2))
               else (s2, []))
         else (s1, []))"

text \<open>The capture of the transients, on the \<^verbatim>\<open>window_level\<close> promoted to \<^verbatim>\<open>int\<close>.\<close>

definition capture_peak :: "int \<Rightarrow> int \<Rightarrow> scan_state \<Rightarrow> scan_state \<times> dbg_msg list" where
  "capture_peak flags window_level s =
     (if peak_started s \<noteq> 0 \<or> window_level > 0 then
        (if peak_started s = 0 then
           (s\<lparr>current_peak := (current_peak s)
                  \<lparr>filtered_level_at_start := filtered_level s, time := sample_index s,
                   height := window_level, area := window_level, filter_hits := 0\<rparr>,
               peak_started := peak_started s + 1\<rparr>, [])
         else if window_level > height (current_peak s) then
           (s\<lparr>current_peak := (current_peak s)
                  \<lparr>time := sample_index s, height := window_level\<rparr>\<rparr>, [])
         else if window_level \<le> 0 then close_peak flags s
         else (s\<lparr>current_peak := (current_peak s)
                   \<lparr>area := area (current_peak s) + window_level\<rparr>\<rparr>, []))
      else (s, []))"

text \<open>The count of samples works on a loop of 24 hours, and is reset only when no peak is
  buffered or open.\<close>

definition index_wrap :: "scan_state \<Rightarrow> scan_state" where
  "index_wrap s =
     (if sample_index s > SAMPLING_RATE * 3600 * 24 \<and> num_peaks s = 0 \<and> peak_started s = 0
      then s\<lparr>sample_index := sample_index s mod (SAMPLING_RATE * 3600 * 24)\<rparr>
      else s)"

text \<open>The end of the loop body: the count of samples, the analysis every 100 ms, the
  thresholds printed every 10 s, and the wrap of the count.\<close>

definition tick :: "int \<Rightarrow> scan_state \<Rightarrow> scan_state \<times> int \<times> dbg_msg list" where
  "tick flags s =
     (let s1 = s\<lparr>sample_index := sample_index s + 1\<rparr>;
          (s2, detections, msgs1) =
            (if sample_index s1 mod ANALYSIS_INTERVAL = 0 then
               (case check_peaks flags s1 of (s', d, m) \<Rightarrow>
                  (s'\<lparr>peak_threshold := fmul (peak_threshold s') (lit (999 / 1000))\<rparr>, d, m))
             else (s1, 0, []));
          msgs2 =
            (if flag_set flags SCAN_DISP_THRESHOLDS \<and>
                sample_index s2 mod (SAMPLING_RATE * 10) = 0
             then [Msg_thresholds (peak_threshold s2)
                     (fmul (peak_threshold s2) (THRESHOLD_SCALING flags))]
             else []);
          s3 = index_wrap s2
      in (s3, detections, msgs1 @ msgs2))"

text \<open>One pass through the loop, for the sample \<open>x\<close>: the new state, the detections of this
  sample, \<^verbatim>\<open>out_samples\<close> and the lines printed.\<close>

definition sample_step ::
  "int \<Rightarrow> scan_state \<Rightarrow> int16 list option \<Rightarrow> int16
     \<Rightarrow> scan_state \<times> int \<times> int16 list option \<times> dbg_msg list" where
  "sample_step flags s out_samples x =
     (let (sample, w') = decorrelate (weight s) (last_sample s) x;
          o1 = outp out_samples flags SCAN_OUTP_DECORR_AUDIO sample;
          level = level_update (decorrelated_level s) (float_of_int \<bar>sint sample\<bar>);
          o2 = outp o1 flags SCAN_OUTP_DECORR_LEVEL (int16_of_float level);
          normalized_sample = normalize sample level;
          o3 = outp o2 flags SCAN_OUTP_NORMAL_AUDIO (int16_of_float normalized_sample);
          (win', idx', wsum', window_level) =
            window_step (sample_window s) (window_index s) (window_sum s) normalized_sample;
          o4 = outp o3 flags SCAN_OUTP_WINDOW_LEVEL window_level;
          (f', filtered_sample) = biquad_apply (bell_biquad s) normalized_sample;
          o5 = outp o4 flags SCAN_OUTP_FILTER_AUDIO (filter_audio_out filtered_sample);
          fl' = level_update (filtered_level s) (fabsf filtered_sample);
          o6 = outp o5 flags SCAN_OUTP_FILTER_LEVEL (int16_of_float fl');
          s1 = s\<lparr>weight := w', last_sample := x, decorrelated_level := level,
                 sample_window := win', window_index := idx', window_sum := wsum',
                 bell_biquad := f', filtered_level := fl'\<rparr>;
          (s2, msgs1) = capture_peak flags (sint window_level) s1;
          (s3, detections, msgs2) = tick flags s2
      in (s3, detections, o6, msgs1 @ msgs2))"

text \<open>The loop: \<^verbatim>\<open>detections\<close> starts at 0 in each call and collects the bits of every
  sample; the state lives on in the statics.\<close>

fun scan_loop ::
  "int \<Rightarrow> int16 list \<Rightarrow> scan_state \<times> int \<times> int16 list option \<times> dbg_msg list
     \<Rightarrow> scan_state \<times> int \<times> int16 list option \<times> dbg_msg list" where
  "scan_loop flags [] st = st"
| "scan_loop flags (x # xs) (s, detections, out_samples, msgs) =
     (case sample_step flags s out_samples x of
        (s', d, out', m) \<Rightarrow> scan_loop flags xs (s', detections OR d, out', msgs @ m))"

definition scan_audio ::
  "scan_state \<Rightarrow> int16 list \<Rightarrow> int16 list option \<Rightarrow> int
     \<Rightarrow> scan_state \<times> int \<times> int16 list option \<times> dbg_msg list" where
  "scan_audio s in_samples out_samples flags =
     scan_loop flags in_samples (s, 0, out_samples, [])"

text \<open>A detector as \<^verbatim>\<open>main\<close> starts it: the program loaded, then \<^verbatim>\<open>scan_audio_init\<close>.\<close>

definition fresh :: scan_state where
  "fresh = scan_audio_init static_init"

section \<open>Notions for the properties and their proofs\<close>

text \<open>A level that the rounded update keeps away from zero: an infinity or at least the
  smallest subnormal; and a value that is not negative.\<close>

definition fpositive :: "float \<Rightarrow> bool" where
  "fpositive l = (case l of Fin r \<Rightarrow> pow2 (- 149) \<le> r | PInf \<Rightarrow> True | _ \<Rightarrow> False)"

definition fnonneg :: "float \<Rightarrow> bool" where
  "fnonneg l = (case l of Fin r \<Rightarrow> 0 \<le> r | PInf \<Rightarrow> True | _ \<Rightarrow> False)"

text \<open>The state and the detections after each pass through the loop of \<^verbatim>\<open>scan_audio\<close>.\<close>

fun scan_trace ::
  "int \<Rightarrow> int16 list \<Rightarrow> scan_state \<Rightarrow> int16 list option \<Rightarrow> (scan_state \<times> int) list" where
  "scan_trace flags [] s out_samples = []"
| "scan_trace flags (x # xs) s out_samples =
     (case sample_step flags s out_samples x of
        (s', d, out', m) \<Rightarrow> (s', d) # scan_trace flags xs s' out')"

text \<open>A stream fed in batches, as \<^verbatim>\<open>fill_buffer\<close> does: each call works on the statics the
  last one left, and \<^verbatim>\<open>detection |= scan_audio (...)\<close> collects the results.\<close>

fun feed ::
  "int \<Rightarrow> int16 list list \<Rightarrow> scan_state \<times> int \<times> int16 list option \<times> dbg_msg list
     \<Rightarrow> scan_state \<times> int \<times> int16 list option \<times> dbg_msg list" where
  "feed flags [] st = st"
| "feed flags (b # bs) (s, detection, out_samples, msgs) =
     (case scan_audio s b out_samples flags of
        (s', d, out', m) \<Rightarrow> feed flags bs (s', detection OR d, out', msgs @ m))"

text \<open>The states and detections after each sample, over the calls of the batches.\<close>

fun feed_trace ::
  "int \<Rightarrow> int16 list list \<Rightarrow> scan_state \<Rightarrow> int16 list option \<Rightarrow> (scan_state \<times> int) list" where
  "feed_trace flags [] s out_samples = []"
| "feed_trace flags (b # bs) s out_samples =
     scan_trace flags b s out_samples @
     (case scan_audio s b out_samples flags of
        (s', d, out', m) \<Rightarrow> feed_trace flags bs s' out')"

text \<open>What the three loops of the knock search look for from their current indices on: a
  triple that passes \<open>knock_test\<close>.\<close>

definition found3 :: "int \<Rightarrow> int \<Rightarrow> peak list \<Rightarrow> nat \<Rightarrow> nat \<Rightarrow> nat \<Rightarrow> bool" where
  "found3 flags si buf p1 p2 p3 =
     (\<exists>k. p3 \<le> k \<and> k < length buf \<and> knock_test flags si buf p1 p2 k)"

definition found2 :: "int \<Rightarrow> int \<Rightarrow> peak list \<Rightarrow> nat \<Rightarrow> nat \<Rightarrow> bool" where
  "found2 flags si buf p1 p2 =
     (\<exists>j k. p2 \<le> j \<and> j < k \<and> k < length buf \<and> knock_test flags si buf p1 j k)"

definition found1 :: "int \<Rightarrow> int \<Rightarrow> peak list \<Rightarrow> nat \<Rightarrow> bool" where
  "found1 flags si buf p1 =
     (\<exists>i j k. p1 \<le> i \<and> i < j \<and> j < k \<and> k < length buf \<and> knock_test flags si buf i j k)"

text \<open>What a loop of the knock search leaves of \<^verbatim>\<open>detections\<close> and of the buffer.\<close>

definition knock_result :: "bool \<Rightarrow> check_st \<Rightarrow> int \<times> peak list" where
  "knock_result found st =
     (if fst st = 0 \<and> found then (1, []) else (fst st, fst (snd st)))"

text \<open>The detections and the buffer of a loop state, without the lines printed.\<close>

definition core :: "check_st \<Rightarrow> int \<times> peak list" where
  "core st = (fst st, fst (snd st))"

text \<open>
  The conditions of a knock as the specification lists them, for the peaks \<open>i < j < k\<close> of
  the buffer: the span strictly between 4000 and 12000, the three widths below 512, the
  post-roll of half a span, the ratio of the larger gap to the smaller below 1.1, or 1.2 in
  the high-sensitivity mode, and no other peak near the three that is higher than the
  lowest of them times 0.5, or 0.75 in the high-sensitivity mode. The four limits are the
  literals \<^verbatim>\<open>1.1F\<close>, \<^verbatim>\<open>1.2F\<close>, \<^verbatim>\<open>0.5F\<close> and \<^verbatim>\<open>0.75F\<close>, and the mode is the bit
  \<^verbatim>\<open>SCAN_HIGH_SENSITIVITY\<close> of the flags; the ratio and the heights are compared in
  \<^verbatim>\<open>float\<close>.
\<close>

definition knock_triple_spec :: "int \<Rightarrow> int \<Rightarrow> peak list \<Rightarrow> nat \<Rightarrow> nat \<Rightarrow> nat \<Rightarrow> bool" where
  "knock_triple_spec flags si buf i j k =
     (let p1 = buf ! i; p2 = buf ! j; p3 = buf ! k;
          high = (flags AND 1 \<noteq> 0);
          spn = time p3 - time p1;
          d1 = time p2 - time p1;
          d2 = time p3 - time p2;
          ratio = fdiv (float_of_int (max d1 d2)) (float_of_int (min d1 d2));
          min_h = fmul (float_of_int (min (height p1) (min (height p2) (height p3))))
                    (if high then lit (75 / 100) else lit (5 / 10))
      in 4000 < spn \<and> spn < 12000 \<and>
         width p1 < 512 \<and> width p2 < 512 \<and> width p3 < 512 \<and>
         time p3 + spn div 2 < si \<and>
         flt ratio (if high then lit (12 / 10) else lit (11 / 10)) \<and>
         (\<forall>q<length buf. q \<noteq> i \<and> q \<noteq> j \<and> q \<noteq> k \<and>
              time p1 - spn div 3 < time (buf ! q) \<and> time (buf ! q) < time p3 + spn div 3
              \<longrightarrow> \<not> fgt (float_of_int (height (buf ! q))) min_h))"

text \<open>The values of an \<^verbatim>\<open>int16_t\<close> promoted to \<^verbatim>\<open>int\<close>.\<close>

definition int16_range :: "int \<Rightarrow> bool" where
  "int16_range h = (- 32768 \<le> h \<and> h \<le> 32767)"

text \<open>What a tick without a ring does to a buffered peak, and whether a peak from index
  \<open>p1\<close> on reaches its fifth hit with this tick.\<close>

definition bell_bump :: "int \<Rightarrow> float \<Rightarrow> peak \<Rightarrow> peak" where
  "bell_bump si fl p = (if bell_hit si fl p then p\<lparr>filter_hits := filter_hits p + 1\<rparr> else p)"

definition bell_reach :: "int \<Rightarrow> float \<Rightarrow> peak list \<Rightarrow> nat \<Rightarrow> bool" where
  "bell_reach si fl buf p1 =
     (\<exists>i. p1 \<le> i \<and> i < length buf \<and> bell_hit si fl (buf ! i) \<and> filter_hits (buf ! i) + 1 = 5)"

text \<open>The two conditions of a bell hit as the specification words them.\<close>

definition bell_cond_spec :: "int \<Rightarrow> float \<Rightarrow> peak \<Rightarrow> bool" where
  "bell_cond_spec si fl p =
     (time p + 16000 > si \<and> fgt fl (fadd (fmul (Fin 2) (filtered_level_at_start p)) (Fin 50)))"

text \<open>The window as the loop keeps it: 256 entries, the index among them, and the running
  sum equal to their sum.\<close>

definition window_ok :: "scan_state \<Rightarrow> bool" where
  "window_ok s =
     (length (sample_window s) = WINDOW_SIZE \<and> window_index s < WINDOW_SIZE \<and>
      window_sum s = (\<Sum>w\<leftarrow>sample_window s. sint w))"

text \<open>A buffer of three narrow peaks 3000 samples apart, at the tick of sample 11200.\<close>

definition knock_state :: scan_state where
  "knock_state = static_init
     \<lparr>peak_buffer :=
        [\<lparr>time = 1000, area = 900, width = 9, height = 100, filter_hits = 0,
           filtered_level_at_start = Fin 0\<rparr>,
         \<lparr>time = 4000, area = 960, width = 8, height = 120, filter_hits = 0,
           filtered_level_at_start = Fin 0\<rparr>,
         \<lparr>time = 7000, area = 770, width = 7, height = 110, filter_hits = 0,
           filtered_level_at_start = Fin 0\<rparr>],
      sample_index := 11200\<rparr>"

text \<open>
  Two buffers on which the two modes differ, at the tick of sample 17600. In the first the
  gaps of the three peaks are 5000 and 5600, a ratio of 1.12, between the two limits of the
  ratio. In the second the gaps are equal, and a fourth peak of height 51 lies among three
  peaks of height 100: above the half and below the three quarters of the lowest of them.
\<close>

definition ratio_state :: scan_state where
  "ratio_state = static_init
     \<lparr>peak_buffer :=
        [\<lparr>time = 1000, area = 900, width = 9, height = 100, filter_hits = 0,
           filtered_level_at_start = Fin 0\<rparr>,
         \<lparr>time = 6000, area = 900, width = 9, height = 100, filter_hits = 0,
           filtered_level_at_start = Fin 0\<rparr>,
         \<lparr>time = 11600, area = 900, width = 9, height = 100, filter_hits = 0,
           filtered_level_at_start = Fin 0\<rparr>],
      sample_index := 17600\<rparr>"

definition crowd_state :: scan_state where
  "crowd_state = static_init
     \<lparr>peak_buffer :=
        [\<lparr>time = 1000, area = 900, width = 9, height = 100, filter_hits = 0,
           filtered_level_at_start = Fin 0\<rparr>,
         \<lparr>time = 3000, area = 459, width = 9, height = 51, filter_hits = 0,
           filtered_level_at_start = Fin 0\<rparr>,
         \<lparr>time = 6000, area = 900, width = 9, height = 100, filter_hits = 0,
           filtered_level_at_start = Fin 0\<rparr>,
         \<lparr>time = 11000, area = 900, width = 9, height = 100, filter_hits = 0,
           filtered_level_at_start = Fin 0\<rparr>],
      sample_index := 17600\<rparr>"

text \<open>Two young peaks, one with four bell ticks already, at a tick where the bell level is
  100 over a level of 10 at their start.\<close>

definition bell_state :: scan_state where
  "bell_state = static_init
     \<lparr>peak_buffer :=
        [\<lparr>time = 1000, area = 900, width = 9, height = 100, filter_hits = 4,
           filtered_level_at_start = Fin 10\<rparr>,
         \<lparr>time = 1300, area = 900, width = 9, height = 100, filter_hits = 0,
           filtered_level_at_start = Fin 10\<rparr>],
      sample_index := 1600, filtered_level := Fin 100\<rparr>"

text \<open>The state after \<open>n\<close> samples of silence fed to a fresh detector.\<close>

definition silence :: "nat \<Rightarrow> scan_state" where
  "silence n = fst (scan_audio fresh (replicate n 0) None 0)"

text \<open>The weight update as the specification words it, from the raw input \<open>x\<close> and the
  last raw input \<open>l\<close>.\<close>

definition weight_spec :: "int16 \<Rightarrow> int16 \<Rightarrow> int16 \<Rightarrow> int16" where
  "weight_spec w l x =
     (if x \<noteq> 0 \<and> l \<noteq> 0
      then word_of_int (sint w + push_bit 1 (drop_bit 30 (sint x XOR sint l) OR 1))
      else w)"

text \<open>A detector that has been fed two samples at full scale, and one that has been used on
  a single sample.\<close>

definition loud2 :: scan_state where
  "loud2 = fst (scan_audio fresh [32767, 32767] None 0)"

definition used1 :: scan_state where
  "used1 = fst (scan_audio fresh [1] None 0)"

text \<open>A detector whose statics are as loaded, but for a delay line of the bell filter.\<close>

definition dirty_biquad :: scan_state where
  "dirty_biquad = static_init\<lparr>bell_biquad := zero_biquad\<lparr>in_d1 := Fin 5\<rparr>\<rparr>"

text \<open>Whether the sample with window level \<open>wl\<close> closes the open peak of \<open>s\<close>.\<close>

definition closes :: "int \<Rightarrow> scan_state \<Rightarrow> bool" where
  "closes wl s = (peak_started s \<noteq> 0 \<and> \<not> wl > height (current_peak s) \<and> wl \<le> 0)"

text \<open>The peak that \<^verbatim>\<open>add_peak\<close> receives: the current one with its width.\<close>

definition closed_peak :: "scan_state \<Rightarrow> peak" where
  "closed_peak s =
     (current_peak s)\<lparr>width := cdiv (area (current_peak s)) (height (current_peak s))\<rparr>"





text \<open>An excursion of three samples with the window levels 1, 5 and 0, in a detector
  with no peak open.\<close>

definition rise1 :: scan_state where
  "rise1 = fst (capture_peak 0 1 static_init)"

definition rise2 :: scan_state where
  "rise2 = fst (capture_peak 0 5 rise1)"

definition fall3 :: scan_state where
  "fall3 = fst (capture_peak 0 0 rise2)"

text \<open>Every height a detector holds is a \<^verbatim>\<open>window_level\<close>, an \<^verbatim>\<open>int16_t\<close>.\<close>

definition heights_ok :: "scan_state \<Rightarrow> bool" where
  "heights_ok s =
     (int16_range (height (current_peak s)) \<and>
      (\<forall>p\<in>set (peak_buffer s). int16_range (height p)))"

section \<open>Lemmas\<close>

lemma pow2_powi: "pow2 e = 2 powi e"
  by (simp add: pow2_def power_int_def inverse_eq_divide power_one_over)

lemma pow2_pos: "0 < pow2 e"
  by (simp add: pow2_powi)

lemma pow2_add: "pow2 (a + b) = pow2 a * pow2 b"
  by (simp add: pow2_powi power_int_add)

lemma pow2_mono: "a \<le> b \<Longrightarrow> pow2 a \<le> pow2 b"
  by (simp add: pow2_powi power_int_increasing)

lemma pow2_nat: "0 \<le> e \<Longrightarrow> pow2 e = 2 ^ nat e"
  by (simp add: pow2_def)

lemma ilog2_le:
  assumes "0 < a"
  shows "pow2 (ilog2 a) \<le> a"
proof -
  obtain n d where q: "quotient_of a = (n, d)" by (cases "quotient_of a")
  have d: "0 < d" using q by (rule quotient_of_denom_pos)
  have a: "a = of_int n / of_int d" using q by (rule quotient_of_div)
  have n: "0 < n" using assms d a by (simp add: zero_less_divide_iff)
  let ?e = "bitlen n - bitlen d"
  show ?thesis
  proof (cases "pow2 ?e \<le> a")
    case True
    then show ?thesis using q by (simp add: ilog2_def)
  next
    case False
    have bn: "2 ^ nat (bitlen n - 1) \<le> n" using bitlen_bounds [OF n] by simp
    have bd: "d < 2 ^ nat (bitlen d)" using bitlen_bounds [OF d] by simp
    have n1: "1 \<le> bitlen n" using n by (simp add: bitlen_alt_def)
    have d0: "0 \<le> bitlen d" by (rule bitlen_nonneg)
    have "pow2 (?e - 1) * of_int d \<le> pow2 (?e - 1) * pow2 (bitlen d)"
      using bd d0 pow2_pos [of "?e - 1"]
      by (simp add: pow2_nat)
    also have "\<dots> = pow2 (bitlen n - 1)"
      by (simp add: pow2_add [symmetric])
    also have "\<dots> \<le> of_int n"
      using bn n1 by (simp add: pow2_nat)
    finally have "pow2 (?e - 1) \<le> a"
      using d by (simp add: a pos_le_divide_eq)
    then show ?thesis using q False by (simp add: ilog2_def)
  qed
qed

lemma rne_of_int: "rne (of_int k) = k"
  by (simp add: rne_def)

lemma rne_ge_floor: "\<lfloor>y\<rfloor> \<le> rne y"
  by (simp add: rne_def Let_def)

lemma rne_ge_1:
  assumes "1 / 2 < y"
  shows "1 \<le> rne y"
proof (cases "\<lfloor>y\<rfloor> = 0")
  case True
  then show ?thesis using assms by (simp add: rne_def)
next
  case False
  have "0 \<le> \<lfloor>y\<rfloor>" using assms by simp
  with False have "1 \<le> \<lfloor>y\<rfloor>" by linarith
  with rne_ge_floor [of y] show ?thesis by linarith
qed

lemma round32_positive:
  assumes "pow2 (- 150) < x"
  shows "fpositive (round32 x)"
proof -
  have x: "0 < x" using assms pow2_pos [of "- 150"] by simp
  define e where "e = max (ilog2 x) (- 126)"
  define q where "q = pow2 (e - 23)"
  have e: "- 126 \<le> e" by (simp add: e_def)
  have q: "0 < q" by (simp add: q_def pow2_pos)
  have qlow: "pow2 (- 149) \<le> q" unfolding q_def using e by (intro pow2_mono) simp
  have "1 / 2 < x / q"
  proof (cases "ilog2 x \<le> - 126")
    case True
    then have "q = pow2 (- 149)" by (simp add: q_def e_def max_def)
    moreover have "pow2 (- 150) = pow2 (- 149) / 2" by (simp add: pow2_def)
    ultimately show ?thesis using assms pow2_pos [of "- 149"] by (simp add: pos_less_divide_eq)
  next
    case False
    then have "e = ilog2 x" by (simp add: e_def)
    then have "pow2 e \<le> x" using ilog2_le [OF x] by simp
    moreover have "pow2 e = pow2 23 * q" by (simp add: q_def pow2_add [symmetric])
    ultimately have "pow2 23 \<le> x / q" using q by (simp add: pos_le_divide_eq)
    moreover have "(1::rat) / 2 < pow2 23" by (simp add: pow2_def)
    ultimately show ?thesis by (rule less_le_trans [rotated])
  qed
  then have "1 \<le> rne (x / q)" by (rule rne_ge_1)
  then have "1 * q \<le> of_int (rne (x / q)) * q"
    using q by (intro mult_right_mono) auto
  then have "pow2 (- 149) \<le> of_int (rne (x / q)) * q" using qlow by simp
  then show ?thesis using x
    by (simp add: round32_def Let_def e_def [symmetric] q_def [symmetric] fpositive_def)
qed

lemma round32_nonneg:
  assumes "0 \<le> x"
  shows "fnonneg (round32 x)"
proof (cases "x = 0")
  case True
  then show ?thesis by (simp add: round32_def fnonneg_def)
next
  case False
  then have x: "0 < x" using assms by simp
  define q where "q = pow2 (max (ilog2 x) (- 126) - 23)"
  have q: "0 < q" by (simp add: q_def pow2_pos)
  have "0 \<le> x / q" using x q by simp
  then have "0 \<le> \<lfloor>x / q\<rfloor>" by simp
  with rne_ge_floor [of "x / q"] have "0 \<le> rne (x / q)" by linarith
  then have "0 \<le> of_int (rne (x / q)) * q" using q by simp
  then show ?thesis using x
    by (simp add: round32_def Let_def q_def [symmetric] fnonneg_def)
qed

lemma round32_of_int:
  assumes "\<bar>i\<bar> \<le> 2 ^ 24"
  shows "round32 (of_int i) = Fin (of_int i)"
proof (cases "i = 0")
  case True
  then show ?thesis by (simp add: round32_def)
next
  case False
  define n where "n = \<bar>i\<bar>"
  have n: "0 < n" "n \<le> 2 ^ 24" using False assms by (simp_all add: n_def)
  define e where "e = bitlen n - 1"
  have b: "2 ^ nat e \<le> n" "n < 2 ^ nat (e + 1)" using bitlen_bounds [OF n(1)] by (simp_all add: e_def)
  have e0: "0 \<le> e" using n(1) by (simp add: e_def bitlen_alt_def)
  have "(2::int) ^ nat e \<le> 2 ^ 24" using b(1) n(2) by simp
  then have "nat e \<le> 24" by (rule power_le_imp_le_exp [rotated]) simp
  then have e24: "e \<le> 24" by simp
  have b1: "bitlen 1 = 1" by (simp add: bitlen_alt_def)
  have "(of_int (2 ^ nat e) :: rat) \<le> of_int n" using b(1) by (simp only: of_int_le_iff)
  then have pe: "pow2 e \<le> of_int n" using e0 by (simp add: pow2_nat)
  have il: "ilog2 (of_int n) = e"
    using pe by (simp add: ilog2_def b1 e_def [symmetric])
  have "\<exists>k. of_int n / pow2 (e - 23) = (of_int k :: rat)"
  proof (cases "e \<le> 23")
    case True
    have "pow2 (23 - e) * pow2 (e - 23) = 1" by (simp add: pow2_add [symmetric] pow2_def)
    then have "of_int n / pow2 (e - 23) = of_int n * pow2 (23 - e)"
      using pow2_pos [of "e - 23"] by (simp add: field_simps)
    also have "\<dots> = of_int (n * 2 ^ nat (23 - e))" using True by (simp add: pow2_nat)
    finally show ?thesis by blast
  next
    case False
    then have e: "e = 24" using e24 by simp
    then have "n = 2 ^ 24" using b(1) n(2) by simp
    then have "of_int n / pow2 (e - 23) = (of_int (2 ^ 23) :: rat)" using e by (simp add: pow2_def)
    then show ?thesis by blast
  qed
  then obtain k where k: "of_int n / pow2 (e - 23) = (of_int k :: rat)" by blast
  have r: "of_int (rne (of_int n / pow2 (e - 23))) * pow2 (e - 23) = (of_int n :: rat)"
    unfolding k rne_of_int using k pow2_pos [of "e - 23"] by (simp add: field_simps)
  have "(of_int n :: rat) \<le> 2 ^ 24" using n(2) by (metis of_int_le_iff of_int_numeral of_int_power)
  then have small: "(of_int n :: rat) < pow2 128" by (simp add: pow2_def)
  have abs: "\<bar>of_int i :: rat\<bar> = of_int n" by (simp add: n_def)
  have i0: "(of_int i :: rat) \<noteq> 0" using False by simp
  have mx: "max e (- 126) = e" using e0 by simp
  show ?thesis
    unfolding round32_def Let_def abs il mx r using small i0 n
    by (auto simp: n_def abs_if split: if_splits)
qed

lemma check_peaks_other:
  "fst (check_peaks flags s) = s\<lparr>peak_buffer := peak_buffer (fst (check_peaks flags s))\<rparr>"
  by (simp add: check_peaks_def Let_def case_prod_beta)

lemma check_peaks_dsp:
  "weight (fst (check_peaks flags s)) = weight s"
  "last_sample (fst (check_peaks flags s)) = last_sample s"
  "decorrelated_level (fst (check_peaks flags s)) = decorrelated_level s"
  "sample_window (fst (check_peaks flags s)) = sample_window s"
  "window_index (fst (check_peaks flags s)) = window_index s"
  "window_sum (fst (check_peaks flags s)) = window_sum s"
  "bell_biquad (fst (check_peaks flags s)) = bell_biquad s"
  "filtered_level (fst (check_peaks flags s)) = filtered_level s"
  "sample_index (fst (check_peaks flags s)) = sample_index s"
  "peak_started (fst (check_peaks flags s)) = peak_started s"
  "peak_threshold (fst (check_peaks flags s)) = peak_threshold s"
  "current_peak (fst (check_peaks flags s)) = current_peak s"
  by (simp_all add: check_peaks_def Let_def case_prod_beta)

lemma close_peak_dsp:
  "weight (fst (close_peak flags s)) = weight s"
  "last_sample (fst (close_peak flags s)) = last_sample s"
  "decorrelated_level (fst (close_peak flags s)) = decorrelated_level s"
  "sample_window (fst (close_peak flags s)) = sample_window s"
  "window_index (fst (close_peak flags s)) = window_index s"
  "window_sum (fst (close_peak flags s)) = window_sum s"
  "bell_biquad (fst (close_peak flags s)) = bell_biquad s"
  "filtered_level (fst (close_peak flags s)) = filtered_level s"
  "sample_index (fst (close_peak flags s)) = sample_index s"
  by (simp_all add: close_peak_def Let_def case_prod_beta)

lemma capture_peak_dsp:
  "weight (fst (capture_peak flags wl s)) = weight s"
  "last_sample (fst (capture_peak flags wl s)) = last_sample s"
  "decorrelated_level (fst (capture_peak flags wl s)) = decorrelated_level s"
  "sample_window (fst (capture_peak flags wl s)) = sample_window s"
  "window_index (fst (capture_peak flags wl s)) = window_index s"
  "window_sum (fst (capture_peak flags wl s)) = window_sum s"
  "bell_biquad (fst (capture_peak flags wl s)) = bell_biquad s"
  "filtered_level (fst (capture_peak flags wl s)) = filtered_level s"
  "sample_index (fst (capture_peak flags wl s)) = sample_index s"
  by (simp_all add: capture_peak_def close_peak_dsp)

lemma index_wrap_dsp:
  "weight (index_wrap s) = weight s"
  "last_sample (index_wrap s) = last_sample s"
  "decorrelated_level (index_wrap s) = decorrelated_level s"
  "sample_window (index_wrap s) = sample_window s"
  "window_index (index_wrap s) = window_index s"
  "window_sum (index_wrap s) = window_sum s"
  "bell_biquad (index_wrap s) = bell_biquad s"
  "filtered_level (index_wrap s) = filtered_level s"
  "peak_buffer (index_wrap s) = peak_buffer s"
  "peak_threshold (index_wrap s) = peak_threshold s"
  "peak_started (index_wrap s) = peak_started s"
  "current_peak (index_wrap s) = current_peak s"
  by (simp_all add: index_wrap_def)

text \<open>The state and the detections of \<open>tick\<close>, from those of \<^verbatim>\<open>check_peaks\<close>.\<close>

lemma tick_state:
  "fst (tick flags s) =
     index_wrap
       (if (sample_index s + 1) mod ANALYSIS_INTERVAL = 0
        then (fst (check_peaks flags (s\<lparr>sample_index := sample_index s + 1\<rparr>)))
               \<lparr>peak_threshold :=
                  fmul (peak_threshold s) (lit (999 / 1000))\<rparr>
        else s\<lparr>sample_index := sample_index s + 1\<rparr>)"
  "fst (snd (tick flags s)) =
     (if (sample_index s + 1) mod ANALYSIS_INTERVAL = 0
      then fst (snd (check_peaks flags (s\<lparr>sample_index := sample_index s + 1\<rparr>)))
      else 0)"
  by (simp_all add: tick_def Let_def case_prod_beta check_peaks_dsp)

lemma tick_dsp:
  "weight (fst (tick flags s)) = weight s"
  "last_sample (fst (tick flags s)) = last_sample s"
  "decorrelated_level (fst (tick flags s)) = decorrelated_level s"
  "sample_window (fst (tick flags s)) = sample_window s"
  "window_index (fst (tick flags s)) = window_index s"
  "window_sum (fst (tick flags s)) = window_sum s"
  "bell_biquad (fst (tick flags s)) = bell_biquad s"
  "filtered_level (fst (tick flags s)) = filtered_level s"
  by (simp_all add: tick_state index_wrap_dsp check_peaks_dsp)

lemma sample_step_dsp:
  "weight (fst (sample_step flags s out x)) = snd (decorrelate (weight s) (last_sample s) x)"
  "last_sample (fst (sample_step flags s out x)) = x"
  "decorrelated_level (fst (sample_step flags s out x)) =
     level_update (decorrelated_level s)
       (float_of_int \<bar>sint (fst (decorrelate (weight s) (last_sample s) x))\<bar>)"
  by (simp_all add: sample_step_def Let_def case_prod_beta tick_dsp capture_peak_dsp)

lemma scan_loop_acc:
  "scan_loop flags xs (s, d, out, m) =
     (case scan_loop flags xs (s, 0, out, []) of
        (s', d', out', m') \<Rightarrow> (s', d OR d', out', m @ m'))"
proof (induction xs arbitrary: s d out m)
  case Nil
  then show ?case by simp
next
  case (Cons x xs)
  obtain s1 d1 o1 m1 where st: "sample_step flags s out x = (s1, d1, o1, m1)"
    by (cases "sample_step flags s out x") auto
  obtain s2 d2 o2 m2 where r: "scan_loop flags xs (s1, 0, o1, []) = (s2, d2, o2, m2)"
    by (cases "scan_loop flags xs (s1, 0, o1, [])") auto
  have a: "scan_loop flags xs (s1, d OR d1, o1, m @ m1) = (s2, (d OR d1) OR d2, o2, (m @ m1) @ m2)"
    using Cons.IH [of s1 "d OR d1" o1 "m @ m1"] r by simp
  have b: "scan_loop flags xs (s1, d1, o1, m1) = (s2, d1 OR d2, o2, m1 @ m2)"
    using Cons.IH [of s1 d1 o1 m1] r by simp
  show ?case using st a b by (simp add: or.assoc)
qed

lemma scan_loop_append:
  "scan_loop flags (xs @ ys) st = scan_loop flags ys (scan_loop flags xs st)"
proof (induction xs arbitrary: st)
  case Nil
  then show ?case by simp
next
  case (Cons x xs)
  obtain s d out m where st: "st = (s, d, out, m)" by (cases st) auto
  show ?case using Cons.IH by (simp add: st split: prod.splits)
qed

lemma scan_audio_append:
  "scan_audio s (xs @ ys) out flags =
     (case scan_audio s xs out flags of
        (s1, d1, o1, m1) \<Rightarrow>
          (case scan_audio s1 ys o1 flags of
             (s2, d2, o2, m2) \<Rightarrow> (s2, d1 OR d2, o2, m1 @ m2)))"
proof -
  obtain s1 d1 o1 m1 where a: "scan_loop flags xs (s, 0, out, []) = (s1, d1, o1, m1)"
    by (cases "scan_loop flags xs (s, 0, out, [])") auto
  show ?thesis
    unfolding scan_audio_def scan_loop_append a
    by (simp add: scan_loop_acc [of flags ys s1 d1 o1 m1])
qed

lemma scan_trace_append:
  "scan_trace flags (xs @ ys) s out =
     scan_trace flags xs s out @
     (case scan_audio s xs out flags of (s1, d1, o1, m1) \<Rightarrow> scan_trace flags ys s1 o1)"
proof (induction xs arbitrary: s out)
  case Nil
  then show ?case by (simp add: scan_audio_def)
next
  case (Cons x xs)
  obtain s1 d1 o1 m1 where st: "sample_step flags s out x = (s1, d1, o1, m1)"
    by (cases "sample_step flags s out x") auto
  have "fst (scan_audio s (x # xs) out flags) = fst (scan_audio s1 xs o1 flags)"
       "fst (snd (snd (scan_audio s (x # xs) out flags))) = fst (snd (snd (scan_audio s1 xs o1 flags)))"
    using st scan_loop_acc [of flags xs s1 "0 OR d1" o1 "[] @ m1"]
    by (simp_all add: scan_audio_def split: prod.splits)
  then show ?case using st Cons.IH [of s1 o1] by (simp add: case_prod_beta)
qed

lemma feed_acc:
  "feed flags bs (s, d, out, m) =
     (case feed flags bs (s, 0, out, []) of (s', d', out', m') \<Rightarrow> (s', d OR d', out', m @ m'))"
proof (induction bs arbitrary: s d out m)
  case Nil
  then show ?case by simp
next
  case (Cons b bs)
  obtain s1 d1 o1 m1 where st: "scan_audio s b out flags = (s1, d1, o1, m1)"
    by (cases "scan_audio s b out flags") auto
  obtain s2 d2 o2 m2 where r: "feed flags bs (s1, 0, o1, []) = (s2, d2, o2, m2)"
    by (cases "feed flags bs (s1, 0, o1, [])") auto
  have a: "feed flags bs (s1, d OR d1, o1, m @ m1) = (s2, (d OR d1) OR d2, o2, (m @ m1) @ m2)"
    using Cons.IH [of s1 "d OR d1" o1 "m @ m1"] r by simp
  have b: "feed flags bs (s1, d1, o1, m1) = (s2, d1 OR d2, o2, m1 @ m2)"
    using Cons.IH [of s1 d1 o1 m1] r by simp
  show ?case using st a b by (simp add: or.assoc)
qed

lemma feed_concat:
  "feed flags bs (s, 0, out, []) = scan_audio s (concat bs) out flags"
proof (induction bs arbitrary: s out)
  case Nil
  then show ?case by (simp add: scan_audio_def)
next
  case (Cons b bs)
  obtain s1 d1 o1 m1 where st: "scan_audio s b out flags = (s1, d1, o1, m1)"
    by (cases "scan_audio s b out flags") auto
  show ?case
    using st Cons.IH [of s1 o1] feed_acc [of flags bs s1 d1 o1 m1]
    by (simp add: scan_audio_append)
qed

lemma feed_trace_concat:
  "feed_trace flags bs s out = scan_trace flags (concat bs) s out"
proof (induction bs arbitrary: s out)
  case Nil
  then show ?case by simp
next
  case (Cons b bs)
  show ?case using Cons.IH by (simp add: scan_trace_append case_prod_beta)
qed

lemma scan_loop_trace:
  "fst (scan_loop flags xs (s, d, out, m)) = last (s # map fst (scan_trace flags xs s out)) \<and>
   fst (snd (scan_loop flags xs (s, d, out, m))) =
     foldl (OR) d (map snd (scan_trace flags xs s out))"
proof (induction xs arbitrary: s d out m)
  case Nil
  then show ?case by simp
next
  case (Cons x xs)
  obtain s1 d1 o1 m1 where st: "sample_step flags s out x = (s1, d1, o1, m1)"
    by (cases "sample_step flags s out x") auto
  show ?case using st Cons.IH [of s1 "d OR d1" o1 "m @ m1"] by simp
qed

lemma found3_step:
  "found3 flags si buf p1 p2 p3 \<longleftrightarrow>
     (p3 < length buf \<and> knock_test flags si buf p1 p2 p3) \<or> found3 flags si buf p1 p2 (Suc p3)"
proof
  assume "found3 flags si buf p1 p2 p3"
  then obtain k where k: "p3 \<le> k" "k < length buf" "knock_test flags si buf p1 p2 k"
    unfolding found3_def by blast
  show "(p3 < length buf \<and> knock_test flags si buf p1 p2 p3) \<or> found3 flags si buf p1 p2 (Suc p3)"
  proof (cases "k = p3")
    case True
    then show ?thesis using k by simp
  next
    case False
    then have "Suc p3 \<le> k" using k(1) by simp
    then show ?thesis using k unfolding found3_def by blast
  qed
next
  assume "(p3 < length buf \<and> knock_test flags si buf p1 p2 p3) \<or> found3 flags si buf p1 p2 (Suc p3)"
  then show "found3 flags si buf p1 p2 p3"
    unfolding found3_def using Suc_leD by blast
qed

lemma found3_end: "length buf \<le> p3 \<Longrightarrow> \<not> found3 flags si buf p1 p2 p3"
  unfolding found3_def by auto

lemma found2_step:
  "found2 flags si buf p1 p2 \<longleftrightarrow>
     found3 flags si buf p1 p2 (Suc p2) \<or> found2 flags si buf p1 (Suc p2)"
proof
  assume "found2 flags si buf p1 p2"
  then obtain j k where k: "p2 \<le> j" "j < k" "k < length buf" "knock_test flags si buf p1 j k"
    unfolding found2_def by blast
  show "found3 flags si buf p1 p2 (Suc p2) \<or> found2 flags si buf p1 (Suc p2)"
  proof (cases "j = p2")
    case True
    then have "Suc p2 \<le> k" using k(2) by simp
    then show ?thesis using k True unfolding found3_def by blast
  next
    case False
    then have "Suc p2 \<le> j" using k(1) by simp
    then show ?thesis using k unfolding found2_def by blast
  qed
next
  assume a: "found3 flags si buf p1 p2 (Suc p2) \<or> found2 flags si buf p1 (Suc p2)"
  show "found2 flags si buf p1 p2"
  proof (rule disjE [OF a])
    assume "found3 flags si buf p1 p2 (Suc p2)"
    then obtain k where "Suc p2 \<le> k" "k < length buf" "knock_test flags si buf p1 p2 k"
      unfolding found3_def by blast
    then have "p2 \<le> p2 \<and> p2 < k \<and> k < length buf \<and> knock_test flags si buf p1 p2 k" by simp
    then show ?thesis unfolding found2_def by blast
  next
    assume "found2 flags si buf p1 (Suc p2)"
    then obtain j k where "Suc p2 \<le> j" "j < k" "k < length buf" "knock_test flags si buf p1 j k"
      unfolding found2_def by blast
    then have "p2 \<le> j \<and> j < k \<and> k < length buf \<and> knock_test flags si buf p1 j k" by simp
    then show ?thesis unfolding found2_def by blast
  qed
qed

lemma found2_end: "length buf \<le> Suc p2 \<Longrightarrow> \<not> found2 flags si buf p1 p2"
  unfolding found2_def by auto

lemma found1_step:
  "found1 flags si buf p1 \<longleftrightarrow>
     found2 flags si buf p1 (Suc p1) \<or> found1 flags si buf (Suc p1)"
proof
  assume "found1 flags si buf p1"
  then obtain i j k where
    k: "p1 \<le> i" "i < j" "j < k" "k < length buf" "knock_test flags si buf i j k"
    unfolding found1_def by blast
  show "found2 flags si buf p1 (Suc p1) \<or> found1 flags si buf (Suc p1)"
  proof (cases "i = p1")
    case True
    then have "Suc p1 \<le> j" using k(2) by simp
    then show ?thesis using k True unfolding found2_def by blast
  next
    case False
    then have "Suc p1 \<le> i" using k(1) by simp
    then show ?thesis using k unfolding found1_def by blast
  qed
next
  assume a: "found2 flags si buf p1 (Suc p1) \<or> found1 flags si buf (Suc p1)"
  show "found1 flags si buf p1"
  proof (rule disjE [OF a])
    assume "found2 flags si buf p1 (Suc p1)"
    then obtain j k where "Suc p1 \<le> j" "j < k" "k < length buf" "knock_test flags si buf p1 j k"
      unfolding found2_def by blast
    then have "p1 \<le> p1 \<and> p1 < j \<and> j < k \<and> k < length buf \<and> knock_test flags si buf p1 j k"
      by simp
    then show ?thesis unfolding found1_def by blast
  next
    assume "found1 flags si buf (Suc p1)"
    then obtain i j k where
      "Suc p1 \<le> i" "i < j" "j < k" "k < length buf" "knock_test flags si buf i j k"
      unfolding found1_def by blast
    then have "p1 \<le> i \<and> i < j \<and> j < k \<and> k < length buf \<and> knock_test flags si buf i j k"
      by simp
    then show ?thesis unfolding found1_def by blast
  qed
qed

lemma found1_end: "length buf \<le> Suc (Suc p1) \<Longrightarrow> \<not> found1 flags si buf p1"
  unfolding found1_def by auto

lemma knock_loop3_core:
  "core (knock_loop3 flags si p1 p2 p3 st) =
     knock_result (found3 flags si (fst (snd st)) p1 p2 p3) st"
proof (induction flags si p1 p2 p3 st rule: knock_loop3.induct)
  case (1 flags si p1 p2 p3 d buf m)
  show ?case
  proof (cases "d = 0 \<and> p3 < length buf")
    case False
    then show ?thesis
      by (auto simp: knock_loop3.simps core_def knock_result_def found3_end)
  next
    case True
    note IH = 1 [OF True]
    show ?thesis
    proof (cases "knock_test flags si buf p1 p2 p3")
      case t: True
      then have "knock_body flags si p1 p2 p3 (d, buf, m) =
                   (1, [], m @ dbg flags SCAN_DISP_EVENTS (knock_msg buf p1 p2 p3))"
        using True by (simp add: knock_body_def)
      then show ?thesis using IH True t
        by (subst knock_loop3.simps) (simp add: knock_result_def found3_step [of _ _ buf _ _ p3])
    next
      case f: False
      then have "knock_body flags si p1 p2 p3 (d, buf, m) = (d, buf, m)"
        by (simp add: knock_body_def)
      then show ?thesis using IH True f
        by (subst knock_loop3.simps) (simp add: knock_result_def found3_step [of _ _ buf _ _ p3])
    qed
  qed
qed

lemma knock_loop2_core:
  "core (knock_loop2 flags si p1 p2 st) =
     knock_result (found2 flags si (fst (snd st)) p1 p2) st"
proof (induction flags si p1 p2 st rule: knock_loop2.induct)
  case (1 flags si p1 p2 d buf m)
  show ?case
  proof (cases "p2 + 1 < length buf")
    case False
    then show ?thesis
      by (auto simp: knock_loop2.simps core_def knock_result_def found2_end)
  next
    case True
    note IH = 1 [OF True]
    have c3: "core (knock_loop3 flags si p1 p2 (p2 + 1) (d, buf, m)) =
                knock_result (found3 flags si buf p1 p2 (Suc p2)) (d, buf, m)"
      using knock_loop3_core [of flags si p1 p2 "p2 + 1" "(d, buf, m)"] by simp
    show ?thesis
      using IH True c3
      by (subst knock_loop2.simps)
         (auto simp: knock_result_def core_def found2_step [of _ _ buf _ p2] found2_end
               split: if_splits)
  qed
qed

lemma knock_loop1_core:
  "core (knock_loop1 flags si p1 st) =
     knock_result (found1 flags si (fst (snd st)) p1) st"
proof (induction flags si p1 st rule: knock_loop1.induct)
  case (1 flags si p1 d buf m)
  show ?case
  proof (cases "p1 + 2 < length buf")
    case False
    then show ?thesis
      by (auto simp: knock_loop1.simps core_def knock_result_def found1_end)
  next
    case True
    note IH = 1 [OF True]
    have c2: "core (knock_loop2 flags si p1 (p1 + 1) (d, buf, m)) =
                knock_result (found2 flags si buf p1 (Suc p1)) (d, buf, m)"
      using knock_loop2_core [of flags si p1 "p1 + 1" "(d, buf, m)"] by simp
    show ?thesis
      using IH True c2
      by (subst knock_loop1.simps)
         (auto simp: knock_result_def core_def found1_step [of _ _ buf p1] found1_end
               split: if_splits)
  qed
qed

lemma float_of_int_exact: "int16_range h \<Longrightarrow> float_of_int h = Fin (of_int h)"
  unfolding float_of_int_def int16_range_def by (rule round32_of_int) (simp add: abs_le_iff)

lemma cdiv_pos: "0 \<le> a \<Longrightarrow> 0 < b \<Longrightarrow> cdiv a b = a div b"
  by (simp add: cdiv_def sgn_if)

lemma spurious_scan_full:
  "(spurious_scan buf p1 p2 p3 spn mh i = length buf) \<longleftrightarrow>
     i \<le> length buf \<and>
     (\<forall>q. i \<le> q \<and> q < length buf \<longrightarrow>
        \<not> (q \<noteq> p1 \<and> q \<noteq> p2 \<and> q \<noteq> p3 \<and>
           time (buf ! q) > time (buf ! p1) - cdiv spn 3 \<and>
           time (buf ! q) < time (buf ! p3) + cdiv spn 3 \<and>
           fgt (float_of_int (height (buf ! q))) mh))"
proof (induction buf p1 p2 p3 spn mh i rule: spurious_scan.induct)
  case (1 buf p1 p2 p3 spn mh i)
  let ?c = "\<lambda>q. q \<noteq> p1 \<and> q \<noteq> p2 \<and> q \<noteq> p3 \<and>
           time (buf ! q) > time (buf ! p1) - cdiv spn 3 \<and>
           time (buf ! q) < time (buf ! p3) + cdiv spn 3 \<and>
           fgt (float_of_int (height (buf ! q))) mh"
  show ?case
  proof (cases "i < length buf")
    case False
    then show ?thesis by (subst spurious_scan.simps) auto
  next
    case True
    show ?thesis
    proof (cases "?c i")
      case c: True
      then have "spurious_scan buf p1 p2 p3 spn mh i = i"
        using True by (subst spurious_scan.simps) simp
      then show ?thesis using True c by auto
    next
      case c: False
      then have e: "spurious_scan buf p1 p2 p3 spn mh i = spurious_scan buf p1 p2 p3 spn mh (i + 1)"
        using True by (subst spurious_scan.simps) auto
      have s: "(\<forall>q. i \<le> q \<and> q < length buf \<longrightarrow> \<not> ?c q) \<longleftrightarrow>
               (\<forall>q. i + 1 \<le> q \<and> q < length buf \<longrightarrow> \<not> ?c q)"
      proof (intro iffI allI impI)
        fix q
        assume a: "\<forall>q. i \<le> q \<and> q < length buf \<longrightarrow> \<not> ?c q" and "i + 1 \<le> q \<and> q < length buf"
        then have "i \<le> q \<and> q < length buf" by simp
        then show "\<not> ?c q" using a by blast
      next
        fix q
        assume a: "\<forall>q. i + 1 \<le> q \<and> q < length buf \<longrightarrow> \<not> ?c q" and q: "i \<le> q \<and> q < length buf"
        show "\<not> ?c q"
        proof (cases "q = i")
          case True
          then show ?thesis using c by blast
        next
          case False
          then have "i + 1 \<le> q \<and> q < length buf" using q by simp
          then show ?thesis using a by blast
        qed
      qed
      show ?thesis unfolding e using 1 [OF True] c True s by auto
    qed
  qed
qed

lemma knock_min_height_eq:
  assumes "int16_range (height (buf ! i))" "int16_range (height (buf ! j))"
    "int16_range (height (buf ! k))"
  shows "knock_min_height flags buf i j k =
           fmul (float_of_int (min (height (buf ! i)) (min (height (buf ! j)) (height (buf ! k)))))
             (SPURIOUS_REJECTION_RATIO flags)"
proof -
  have r: "int16_range (min (height (buf ! i)) (min (height (buf ! j)) (height (buf ! k))))"
    using assms by (auto simp: min_def)
  show ?thesis
    using assms r
    by (simp add: knock_min_height_def float_of_int_exact Let_def)
qed

lemma knock_ratio_eq:
  "knock_ratio buf i j k =
     fdiv (float_of_int (max (time (buf ! j) - time (buf ! i)) (time (buf ! k) - time (buf ! j))))
          (float_of_int (min (time (buf ! j) - time (buf ! i)) (time (buf ! k) - time (buf ! j))))"
  by (simp add: knock_ratio_def Let_def max_def min_def)

lemma knock_test_spec:
  assumes "int16_range (height (buf ! i))" "int16_range (height (buf ! j))"
    "int16_range (height (buf ! k))"
  shows "knock_test flags si buf i j k = knock_triple_spec flags si buf i j k"
proof (cases "KNOCK_MIN_SPAN < time (buf ! k) - time (buf ! i)")
  case False
  then show ?thesis by (simp add: knock_test_def knock_triple_spec_def Let_def)
next
  case True
  then have d: "cdiv (time (buf ! k) - time (buf ! i)) 2 = (time (buf ! k) - time (buf ! i)) div 2"
       "cdiv (time (buf ! k) - time (buf ! i)) 3 = (time (buf ! k) - time (buf ! i)) div 3"
    by (simp_all add: cdiv_pos)
  show ?thesis
    unfolding knock_test_def knock_triple_spec_def Let_def spurious_scan_full
      knock_min_height_eq [OF assms] knock_ratio_eq d
      KNOCK_MAX_RATIO_def SPURIOUS_REJECTION_RATIO_def flag_set_def
    by auto
qed

lemma bell_reach_step:
  "bell_reach si fl buf p1 \<longleftrightarrow>
     (p1 < length buf \<and> bell_hit si fl (buf ! p1) \<and> filter_hits (buf ! p1) + 1 = 5) \<or>
     bell_reach si fl buf (Suc p1)"
proof
  assume "bell_reach si fl buf p1"
  then obtain i where i: "p1 \<le> i" "i < length buf" "bell_hit si fl (buf ! i)"
    "filter_hits (buf ! i) + 1 = 5"
    unfolding bell_reach_def by blast
  show "(p1 < length buf \<and> bell_hit si fl (buf ! p1) \<and> filter_hits (buf ! p1) + 1 = 5) \<or>
     bell_reach si fl buf (Suc p1)"
  proof (cases "i = p1")
    case True
    then show ?thesis using i by simp
  next
    case False
    then have "Suc p1 \<le> i" using i(1) by simp
    then show ?thesis using i unfolding bell_reach_def by blast
  qed
next
  assume "(p1 < length buf \<and> bell_hit si fl (buf ! p1) \<and> filter_hits (buf ! p1) + 1 = 5) \<or>
     bell_reach si fl buf (Suc p1)"
  then show "bell_reach si fl buf p1"
    unfolding bell_reach_def using Suc_leD by blast
qed

lemma bell_reach_end: "length buf \<le> p1 \<Longrightarrow> \<not> bell_reach si fl buf p1"
  unfolding bell_reach_def by auto

lemma bell_reach_update:
  "bell_reach si fl (buf[p1 := q]) (Suc p1) = bell_reach si fl buf (Suc p1)"
  unfolding bell_reach_def by (auto simp: nth_list_update)

lemma bell_loop_core:
  "core (bell_loop flags si fl p1 st) =
     (if bell_reach si fl (fst (snd st)) p1 then (fst st OR 2, [])
      else (fst st, take p1 (fst (snd st)) @ map (bell_bump si fl) (drop p1 (fst (snd st)))))"
proof (induction flags si fl p1 st rule: bell_loop.induct)
  case (1 flags si fl p1 d buf m)
  show ?case
  proof (cases "p1 < length buf")
    case False
    then show ?thesis
      by (subst bell_loop.simps) (simp add: core_def bell_reach_end)
  next
    case lt: True
    show ?thesis
    proof (cases "bell_hit si fl (buf ! p1)")
      case nohit: False
      have d: "drop p1 buf = buf ! p1 # drop (Suc p1) buf"
        using lt by (simp add: Cons_nth_drop_Suc)
      have t: "take (Suc p1) buf = take p1 buf @ [buf ! p1]"
        using lt by (simp add: take_Suc_conv_app_nth)
      show ?thesis
        using 1(2) [OF lt nohit] lt nohit
        by (subst bell_loop.simps)
           (simp add: bell_reach_step [of si fl buf p1] d t bell_bump_def)
    next
      case hit: True
      define buf' where "buf' = buf[p1 := (buf ! p1)\<lparr>filter_hits := filter_hits (buf ! p1) + 1\<rparr>]"
      have n: "buf' ! p1 = (buf ! p1)\<lparr>filter_hits := filter_hits (buf ! p1) + 1\<rparr>"
        using lt by (simp add: buf'_def)
      show ?thesis
      proof (cases "filter_hits (buf ! p1) + 1 = 5")
        case True
        then show ?thesis
          using lt hit n
          by (subst bell_loop.simps)
             (simp add: Let_def buf'_def [symmetric] core_def bell_reach_step [of si fl buf p1])
      next
        case False
        have d: "drop p1 buf = buf ! p1 # drop (Suc p1) buf"
          using lt by (simp add: Cons_nth_drop_Suc)
        have t: "take (Suc p1) buf' = take p1 buf @ [buf' ! p1]"
          using lt by (simp add: take_Suc_conv_app_nth buf'_def)
        have d': "drop (Suc p1) buf' = drop (Suc p1) buf" by (simp add: buf'_def)
        have r: "bell_reach si fl buf' (Suc p1) = bell_reach si fl buf (Suc p1)"
          unfolding buf'_def by (rule bell_reach_update)
        have IH: "core (bell_loop flags si fl (p1 + 1) (d, buf', m)) =
           (if bell_reach si fl buf' (p1 + 1) then (d OR 2, [])
            else (d, take (p1 + 1) buf' @ map (bell_bump si fl) (drop (p1 + 1) buf')))"
          using 1(1) [OF lt hit buf'_def] False n by simp
        show ?thesis
          using IH lt hit False n
          by (subst bell_loop.simps)
             (simp add: Let_def buf'_def [symmetric] bell_reach_step [of si fl buf p1] r t d d'
                bell_bump_def)
      qed
    qed
  qed
qed

lemma fmul_commute: "fmul x y = fmul y x"
  by (cases x; cases y) (simp_all add: mult.commute)

lemma bell_hit_spec: "bell_hit si fl p = bell_cond_spec si fl p"
proof -
  have "float_of_int 2 = Fin 2" "float_of_int 50 = Fin 50"
    using float_of_int_exact [of 2] float_of_int_exact [of 50] by (simp_all add: int16_range_def)
  then show ?thesis by (simp add: bell_hit_def bell_cond_spec_def fmul_commute)
qed

lemma expire_peaks_subset: "set (expire_peaks si buf) \<subseteq> set buf"
  by (induction buf) auto

lemma check_peaks_core:
  "(fst (snd (check_peaks flags s)), peak_buffer (fst (check_peaks flags s))) =
     core (bell_loop flags (sample_index s) (filtered_level s) 0
            (knock_loop1 flags (sample_index s) 0
               (0, expire_peaks (sample_index s) (peak_buffer s), [])))"
  by (simp add: check_peaks_def Let_def case_prod_beta core_def)

lemma knock_search_core:
  "core (knock_loop1 flags si 0 (0, buf, [])) =
     (if found1 flags si buf 0 then (1, []) else (0, buf))"
  by (simp add: knock_loop1_core knock_result_def)

lemma found1_all:
  "found1 flags si buf 0 =
     (\<exists>i j k. i < j \<and> j < k \<and> k < length buf \<and> knock_test flags si buf i j k)"
  by (simp add: found1_def)

lemma bell_reach_set:
  "bell_reach si fl buf 0 = (\<exists>p\<in>set buf. bell_hit si fl p \<and> filter_hits p + 1 = 5)"
proof -
  have "bell_reach si fl buf 0 =
          (\<exists>i<length buf. bell_hit si fl (buf ! i) \<and> filter_hits (buf ! i) + 1 = 5)"
    unfolding bell_reach_def by blast
  also have "\<dots> = (\<exists>p\<in>set buf. bell_hit si fl p \<and> filter_hits p + 1 = 5)"
    by (metis in_set_conv_nth)
  finally show ?thesis .
qed

lemma bell_search_core:
  "core (bell_loop flags si fl 0 (d, buf, m)) =
     (if bell_reach si fl buf 0 then (d OR 2, []) else (d, map (bell_bump si fl) buf))"
  by (simp add: bell_loop_core)

lemma flag_bits:
  "flag_set 0 1 = False" "flag_set 1 1 = True" "flag_set 2 1 = False"
  "flag_set 0 2 = False" "flag_set 1 2 = False" "flag_set 2 2 = True"
  by (simp_all add: flag_set_def)

text \<open>The detections and the buffer that \<^verbatim>\<open>check_peaks\<close> leaves, from what the knock
  search and the bell loop find in the buffer after the expired peaks are dropped.\<close>

lemma check_peaks_result:
  "(fst (snd (check_peaks flags s)), peak_buffer (fst (check_peaks flags s))) =
     (let si = sample_index s; buf = expire_peaks si (peak_buffer s)
      in if found1 flags si buf 0 then (1, [])
         else if bell_reach si (filtered_level s) buf 0 then (2, [])
         else (0, map (bell_bump si (filtered_level s)) buf))"
proof -
  define si where "si = sample_index s"
  define buf where "buf = expire_peaks si (peak_buffer s)"
  obtain d1 b1 m1 where st: "knock_loop1 flags si 0 (0, buf, []) = (d1, b1, m1)"
    by (cases "knock_loop1 flags si 0 (0, buf, [])") auto
  have k: "(d1, b1) = (if found1 flags si buf 0 then (1, []) else (0, buf))"
    using knock_search_core [of flags si buf] st by (simp add: core_def)
  have e: "\<not> bell_reach si (filtered_level s) [] 0" by (simp add: bell_reach_end)
  have "(fst (snd (check_peaks flags s)), peak_buffer (fst (check_peaks flags s))) =
             core (bell_loop flags si (filtered_level s) 0 (d1, b1, m1))"
    unfolding check_peaks_core by (simp add: si_def [symmetric] buf_def [symmetric] st)
  also have "\<dots> = (if found1 flags si buf 0 then (1, [])
         else if bell_reach si (filtered_level s) buf 0 then (2, [])
         else (0, map (bell_bump si (filtered_level s)) buf))"
    using k e by (simp add: bell_search_core split: if_splits)
  finally show ?thesis by (simp add: Let_def si_def buf_def)
qed

lemma scan_loop_invariant:
  assumes step: "\<And>s out x. P s \<Longrightarrow> P (fst (sample_step flags s out x))"
    and init: "P s"
  shows "P (fst (scan_loop flags xs (s, d, out, m)))"
  using init
proof (induction xs arbitrary: s d out m)
  case Nil
  then show ?case by simp
next
  case (Cons x xs)
  obtain s1 d1 o1 m1 where st: "sample_step flags s out x = (s1, d1, o1, m1)"
    by (cases "sample_step flags s out x") auto
  have "P s1" using step [OF Cons.prems, of out x] st by simp
  then show ?case using Cons.IH st by simp
qed

lemma sum_list_map_update:
  "k < length xs \<Longrightarrow>
     (\<Sum>w\<leftarrow>xs[k := v]. (f w :: int)) = (\<Sum>w\<leftarrow>xs. f w) - f (xs ! k) + f v"
proof (induction xs arbitrary: k)
  case Nil
  then show ?case by simp
next
  case (Cons a xs)
  then show ?case by (cases k) simp_all
qed

lemma and_window_mask: "(n::nat) AND WINDOW_MASK = n mod WINDOW_SIZE"
proof -
  have "n AND mask 8 = n mod 2 ^ 8" by (simp only: take_bit_eq_mask [symmetric] take_bit_eq_mod)
  then show ?thesis by (simp add: mask_eq_exp_minus_1)
qed

lemma sample_step_window:
  "(sample_window (fst (sample_step flags s out x)),
    window_index (fst (sample_step flags s out x)),
    window_sum (fst (sample_step flags s out x))) =
   (let (sample, w') = decorrelate (weight s) (last_sample s) x;
        level = level_update (decorrelated_level s) (float_of_int \<bar>sint sample\<bar>);
        (win', idx', wsum', wl) =
          window_step (sample_window s) (window_index s) (window_sum s) (normalize sample level)
    in (win', idx', wsum'))"
  by (simp add: sample_step_def Let_def case_prod_beta tick_dsp capture_peak_dsp)

lemma window_step_ok:
  assumes "length win = WINDOW_SIZE" "idx < WINDOW_SIZE" "wsum = (\<Sum>w\<leftarrow>win. sint w)"
    and "window_step win idx wsum n = (win', idx', wsum', wl)"
  shows "length win' = WINDOW_SIZE \<and> idx' < WINDOW_SIZE \<and> wsum' = (\<Sum>w\<leftarrow>win'. sint w)"
  using assms by (auto simp: window_step_def Let_def and_window_mask sum_list_map_update)

lemma sample_step_window_ok:
  assumes "window_ok s"
  shows "window_ok (fst (sample_step flags s out x))"
proof -
  obtain sample w' where d: "decorrelate (weight s) (last_sample s) x = (sample, w')"
    by (cases "decorrelate (weight s) (last_sample s) x") auto
  define n where
    "n = normalize sample (level_update (decorrelated_level s) (float_of_int \<bar>sint sample\<bar>))"
  obtain win' idx' wsum' wl where
    w: "window_step (sample_window s) (window_index s) (window_sum s) n = (win', idx', wsum', wl)"
    by (cases "window_step (sample_window s) (window_index s) (window_sum s) n") auto
  have "(sample_window (fst (sample_step flags s out x)),
    window_index (fst (sample_step flags s out x)),
    window_sum (fst (sample_step flags s out x))) = (win', idx', wsum')"
    unfolding sample_step_window using d w by (simp add: n_def)
  moreover have "length win' = WINDOW_SIZE \<and> idx' < WINDOW_SIZE \<and> wsum' = (\<Sum>w\<leftarrow>win'. sint w)"
    using assms w by (intro window_step_ok [of "sample_window s" "window_index s" _ n]) (simp_all add: window_ok_def)
  ultimately show ?thesis by (simp add: window_ok_def)
qed

lemma window_ok_fresh: "window_ok fresh"
  by (simp add: window_ok_def fresh_def scan_audio_init_def static_init_def sum_list_replicate)

lemma flag_set_hs: "flag_set (flags AND 1) 1 = flag_set flags 1"
  by (simp add: flag_set_def and.assoc)

lemma macros_hs:
  "KNOCK_MAX_RATIO (flags AND 1) = KNOCK_MAX_RATIO flags"
  "THRESHOLD_SCALING (flags AND 1) = THRESHOLD_SCALING flags"
  "SPURIOUS_REJECTION_RATIO (flags AND 1) = SPURIOUS_REJECTION_RATIO flags"
  by (simp_all add: KNOCK_MAX_RATIO_def THRESHOLD_SCALING_def SPURIOUS_REJECTION_RATIO_def
        flag_set_hs)

lemma knock_test_hs: "knock_test (flags AND 1) si buf p1 p2 p3 = knock_test flags si buf p1 p2 p3"
  by (simp add: knock_test_def knock_min_height_def macros_hs)

lemma found1_hs: "found1 (flags AND 1) si buf p1 = found1 flags si buf p1"
  by (simp add: found1_def knock_test_hs)

lemma check_peaks_hs:
  "fst (check_peaks (flags AND 1) s) = fst (check_peaks flags s)"
  "fst (snd (check_peaks (flags AND 1) s)) = fst (snd (check_peaks flags s))"
proof -
  have "(fst (snd (check_peaks (flags AND 1) s)), peak_buffer (fst (check_peaks (flags AND 1) s))) =
        (fst (snd (check_peaks flags s)), peak_buffer (fst (check_peaks flags s)))"
    unfolding check_peaks_result by (simp add: found1_hs)
  then have a: "fst (snd (check_peaks (flags AND 1) s)) = fst (snd (check_peaks flags s))"
    and b: "peak_buffer (fst (check_peaks (flags AND 1) s)) = peak_buffer (fst (check_peaks flags s))"
    by simp_all
  show "fst (snd (check_peaks (flags AND 1) s)) = fst (snd (check_peaks flags s))" by (rule a)
  show "fst (check_peaks (flags AND 1) s) = fst (check_peaks flags s)"
    using check_peaks_other [of flags s] check_peaks_other [of "flags AND 1" s] b by simp
qed

lemma add_peak_flags: "fst (add_peak p flags buf) = fst (add_peak p flags' buf)"
  by (simp add: add_peak_def case_prod_beta)

lemma close_peak_hs: "fst (close_peak (flags AND 1) s) = fst (close_peak flags s)"
  using add_peak_flags [of _ "flags AND 1" _ flags]
  by (simp add: close_peak_def Let_def case_prod_beta macros_hs)

lemma capture_peak_hs: "fst (capture_peak (flags AND 1) wl s) = fst (capture_peak flags wl s)"
  by (simp add: capture_peak_def close_peak_hs)

lemma tick_hs:
  "fst (tick (flags AND 1) s) = fst (tick flags s)"
  "fst (snd (tick (flags AND 1) s)) = fst (snd (tick flags s))"
  by (simp_all only: tick_state check_peaks_hs)

lemma sample_step_hs:
  "fst (sample_step (flags AND 1) s None x) = fst (sample_step flags s out x)"
  "fst (snd (sample_step (flags AND 1) s None x)) = fst (snd (sample_step flags s out x))"
  by (simp_all add: sample_step_def Let_def case_prod_beta tick_hs capture_peak_hs)

lemma outp_None: "outp None flags b v = None"
  by (simp add: outp_def)

lemma sample_step_None: "fst (snd (snd (sample_step flags s None x))) = None"
  by (simp add: sample_step_def Let_def case_prod_beta outp_None)

lemma scan_loop_hs:
  "fst (scan_loop (flags AND 1) xs (s, d, None, m')) = fst (scan_loop flags xs (s, d, out, m)) \<and>
   fst (snd (scan_loop (flags AND 1) xs (s, d, None, m'))) =
     fst (snd (scan_loop flags xs (s, d, out, m)))"
proof (induction xs arbitrary: s d out m m')
  case Nil
  then show ?case by simp
next
  case (Cons x xs)
  obtain s1 d1 o1 m1 where a: "sample_step flags s out x = (s1, d1, o1, m1)"
    by (cases "sample_step flags s out x") auto
  obtain s2 d2 o2 m2 where b: "sample_step (flags AND 1) s None x = (s2, d2, o2, m2)"
    by (cases "sample_step (flags AND 1) s None x") auto
  have "s2 = s1" "d2 = d1"
    using sample_step_hs [of flags s x out] a b by simp_all
  moreover have "o2 = None" using sample_step_None [of "flags AND 1" s x] b by simp
  ultimately show ?case using a b Cons.IH [of s1 "d OR d1" "m' @ m2" o1 "m @ m1"] by simp
qed

lemma scan_loop_None:
  "fst (snd (snd (scan_loop flags xs (s, d, None, m)))) = None"
proof (induction xs arbitrary: s d m)
  case Nil
  then show ?case by simp
next
  case (Cons x xs)
  obtain s1 d1 o1 m1 where a: "sample_step flags s None x = (s1, d1, o1, m1)"
    by (cases "sample_step flags s None x") auto
  have "o1 = None" using sample_step_None [of flags s x] a by simp
  then show ?case using a Cons.IH by simp
qed

lemma c255: "fdiv (Fin 255) (Fin 256) = Fin (255 / 256)"
  by code_simp

lemma c1: "fdiv (Fin 1) (Fin 256) = Fin (1 / 256)"
  by code_simp

lemma fpositive_cases:
  "fpositive l \<longleftrightarrow> l = PInf \<or> (\<exists>r. l = Fin r \<and> pow2 (- 149) \<le> r)"
  by (cases l) (simp_all add: fpositive_def)

lemma fnonneg_cases:
  "fnonneg l \<longleftrightarrow> l = PInf \<or> (\<exists>r. l = Fin r \<and> 0 \<le> r)"
  by (cases l) (simp_all add: fnonneg_def)

lemma pow2_150: "pow2 (- 150) = pow2 (- 149) / 2"
  by (simp add: pow2_def)

lemma level_update_positive:
  assumes "fpositive l" "fnonneg mag"
  shows "fpositive (level_update l mag)"
proof -
  have a: "fpositive (fmul l (Fin (255 / 256)))"
  proof (cases "l = PInf")
    case True
    then show ?thesis by (simp add: inf_of_def fpositive_def)
  next
    case False
    then obtain r where r: "l = Fin r" "pow2 (- 149) \<le> r"
      using assms(1) by (auto simp: fpositive_cases)
    have "pow2 (- 150) < r * (255 / 256)"
      using r(2) pow2_pos [of "- 149"] by (simp add: pow2_150)
    then show ?thesis using r(1) by (simp add: round32_positive)
  qed
  have b: "fnonneg (fmul mag (Fin (1 / 256)))"
  proof (cases "mag = PInf")
    case True
    then show ?thesis by (simp add: inf_of_def fnonneg_def)
  next
    case False
    then obtain m where m: "mag = Fin m" "0 \<le> m"
      using assms(2) by (auto simp: fnonneg_cases)
    then show ?thesis by (simp add: round32_nonneg)
  qed
  have "fpositive (fadd x y)" if px: "fpositive x" and ny: "fnonneg y" for x y
  proof (cases "x = PInf \<or> y = PInf")
    case True
    then show ?thesis using px ny
      by (cases x; cases y) (simp_all add: fpositive_def fnonneg_def)
  next
    case False
    then obtain a b where ab: "x = Fin a" "pow2 (- 149) \<le> a" "y = Fin b" "0 \<le> b"
      using px ny by (auto simp: fpositive_cases fnonneg_cases)
    have "pow2 (- 150) < a + b"
      using ab(2,4) pow2_pos [of "- 149"] by (simp add: pow2_150)
    then show ?thesis using ab(1,3) by (simp add: round32_positive)
  qed
  then show ?thesis unfolding level_update_def c255 c1 using a b by blast
qed

lemma sample_step_level_positive:
  assumes "fpositive (decorrelated_level s)"
  shows "fpositive (decorrelated_level (fst (sample_step flags s out x)))"
  unfolding sample_step_dsp
  by (intro level_update_positive assms) (simp add: float_of_int_def round32_nonneg)

lemma fresh_level: "decorrelated_level fresh = Fin 32760"
proof -
  have "lit 32760 = Fin 32760"
    unfolding lit_def using round32_of_int [of 32760] by simp
  then show ?thesis by (simp add: fresh_def scan_audio_init_def static_init_def)
qed

lemma fpositive_fresh: "fpositive (decorrelated_level fresh)"
  using pow2_pos [of "- 149"] by (simp add: fresh_level fpositive_def pow2_def)

lemma fpositive_flt: "fpositive l \<Longrightarrow> flt (Fin 0) l"
  using pow2_pos [of "- 149"] by (cases l) (simp_all add: fpositive_def)

lemma rne_le: "of_int (rne y) \<le> y + 1 / 2"
proof -
  have f: "of_int \<lfloor>y\<rfloor> \<le> y" by simp
  consider "y - of_int \<lfloor>y\<rfloor> < 1 / 2" | "1 / 2 < y - of_int \<lfloor>y\<rfloor>" | "y - of_int \<lfloor>y\<rfloor> = 1 / 2"
    by linarith
  then show ?thesis
  proof cases
    case 1
    then have "rne y = \<lfloor>y\<rfloor>" by (simp add: rne_def)
    then have "of_int (rne y) = (of_int \<lfloor>y\<rfloor> :: rat)" by simp
    with f show ?thesis by linarith
  next
    case 2
    then have "rne y = \<lfloor>y\<rfloor> + 1" by (simp add: rne_def)
    then have "of_int (rne y) = (of_int \<lfloor>y\<rfloor> + 1 :: rat)" by simp
    with 2 show ?thesis by linarith
  next
    case 3
    then have "rne y = \<lfloor>y\<rfloor> \<or> rne y = \<lfloor>y\<rfloor> + 1" by (simp add: rne_def Let_def)
    then have "of_int (rne y) = (of_int \<lfloor>y\<rfloor> :: rat) \<or>
               of_int (rne y) = (of_int \<lfloor>y\<rfloor> + 1 :: rat)" by auto
    with 3 f show ?thesis by linarith
  qed
qed

lemma round32_upper:
  assumes "0 < x" "x \<le> 2 ^ 127"
  shows "\<exists>r. round32 x = Fin r \<and> 0 \<le> r \<and> r \<le> x * (1 + 1 / 2 ^ 24) + pow2 (- 150)"
proof -
  define e where "e = max (ilog2 x) (- 126)"
  define q where "q = pow2 (e - 23)"
  define r where "r = of_int (rne (x / q)) * q"
  have q: "0 < q" by (simp add: q_def pow2_pos)
  have "of_int (rne (x / q)) * q \<le> (x / q + 1 / 2) * q"
    using q rne_le [of "x / q"] by (intro mult_right_mono) simp_all
  moreover have "(x / q + 1 / 2) * q = x + q / 2" using q by (simp add: algebra_simps)
  ultimately have r1: "r \<le> x + q / 2" by (simp add: r_def)
  have qb: "q / 2 \<le> x / 2 ^ 24 + pow2 (- 150)"
  proof (cases "ilog2 x \<le> - 126")
    case True
    then have "q = pow2 (- 149)" by (simp add: q_def e_def max_def)
    then show ?thesis using assms(1) by (simp add: pow2_150)
  next
    case False
    then have "e = ilog2 x" by (simp add: e_def)
    then have "pow2 e \<le> x" using ilog2_le [OF assms(1)] by simp
    moreover have "pow2 e = pow2 23 * q" by (simp add: q_def pow2_add [symmetric])
    ultimately have "q * 2 ^ 23 \<le> x" by (simp add: pow2_def mult.commute)
    then have "q / 2 \<le> x / 2 ^ 24" by simp
    then show ?thesis using pow2_pos [of "- 150"] by linarith
  qed
  have "x * (1 + 1 / 2 ^ 24) = x + x / 2 ^ 24" by (simp add: algebra_simps)
  then have r2: "r \<le> x * (1 + 1 / 2 ^ 24) + pow2 (- 150)"
    using r1 qb by linarith
  have "0 \<le> x / q" using assms(1) q by simp
  then have "0 \<le> \<lfloor>x / q\<rfloor>" by simp
  with rne_ge_floor [of "x / q"] have "0 \<le> rne (x / q)" by linarith
  then have r0: "0 \<le> r" using q by (simp add: r_def)
  have "pow2 (- 150) \<le> 1" by (simp add: pow2_def)
  then have "x * (1 + 1 / 2 ^ 24) + pow2 (- 150) \<le> 2 ^ 127 * (1 + 1 / 2 ^ 24) + 1"
    using assms(2) by (intro add_mono mult_right_mono) simp_all
  also have "\<dots> < pow2 128" by (simp add: pow2_def)
  finally have "r < pow2 128" using r2 by simp
  then have "round32 x = Fin r"
    using assms(1) by (simp add: round32_def Let_def e_def [symmetric] q_def [symmetric] r_def)
  then show ?thesis using r0 r2 by blast
qed

lemma bernoulli_rat: "0 \<le> a \<Longrightarrow> 1 + of_nat n * a \<le> (1 + a :: rat) ^ n"
proof (induction n)
  case 0
  then show ?case by simp
next
  case (Suc n)
  have "1 + of_nat (Suc n) * a \<le> (1 + of_nat n * a) * (1 + a)"
    using Suc.prems by (simp add: algebra_simps)
  also have "\<dots> \<le> (1 + a) ^ n * (1 + a)"
    using Suc by (intro mult_right_mono) simp_all
  finally show ?case by (simp add: mult.commute)
qed

lemma decay_block: "((511 / 512 :: rat) ^ 512) \<le> 1 / 2"
proof -
  define b :: rat where "b = 512 / 511"
  have b1: "b = 1 + 1 / 511" by (simp add: b_def)
  have "(2::rat) \<le> 1 + of_nat 512 * (1 / 511)" by simp
  also have "\<dots> \<le> b ^ 512" unfolding b1 by (rule bernoulli_rat) simp
  finally have b2: "2 \<le> b ^ 512" .
  have b0: "0 < b ^ 512" using b2 by linarith
  have "(511 / 512 :: rat) = 1 / b" by (simp add: b_def)
  then have "(511 / 512 :: rat) ^ 512 = 1 / b ^ 512" by (simp only: power_one_over)
  also have "\<dots> \<le> 1 / 2" using b2 b0 by (simp add: field_simps)
  finally show ?thesis .
qed

lemma decay_bound: "(511 / 512 :: rat) ^ 16000 \<le> 1 / 2 ^ 31"
proof -
  define c :: rat where "c = 511 / 512"
  have c: "0 \<le> c" "c \<le> 1" by (simp_all add: c_def)
  have "(16000::nat) = 512 * 31 + 128" by simp
  then have "c ^ 16000 = c ^ (512 * 31) * c ^ 128" by (simp only: power_add)
  also have "\<dots> \<le> c ^ (512 * 31) * 1"
    using c by (intro mult_left_mono power_le_one) simp_all
  also have "\<dots> = (c ^ 512) ^ 31" by (simp only: power_mult mult_1_right)
  also have "\<dots> \<le> (1 / 2) ^ 31"
    using decay_block c by (intro power_mono) (simp_all add: c_def)
  also have "\<dots> = 1 / 2 ^ 31" by (simp only: power_one_over)
  finally show ?thesis by (simp only: c_def)
qed

lemma scan_audio_snoc:
  "fst (scan_audio s (xs @ [x]) out flags) =
     fst (sample_step flags (fst (scan_audio s xs out flags))
            (fst (snd (snd (scan_audio s xs out flags)))) x)"
proof -
  obtain s1 d1 o1 m1 where a: "scan_loop flags xs (s, 0, out, []) = (s1, d1, o1, m1)"
    by (cases "scan_loop flags xs (s, 0, out, [])") auto
  show ?thesis
    unfolding scan_audio_def scan_loop_append a by (simp add: case_prod_beta)
qed

lemma decorrelate_zero: "decorrelate 0 0 0 = (0, 0)"
  by (simp add: decorrelate_def)

text \<open>One sample of silence after silence: the level is rounded twice on its way down.\<close>

lemma level_update_zero:
  assumes "pow2 (- 149) \<le> r" "r \<le> 32761"
  shows "\<exists>r'. level_update (Fin r) (Fin 0) = Fin r' \<and> pow2 (- 149) \<le> r' \<and>
              r' \<le> r * (511 / 512) + 3 * pow2 (- 150)"
proof -
  have r0: "0 < r" using assms(1) pow2_pos [of "- 149"] by linarith
  define d where "d = pow2 (- 150)"
  have d: "0 < d" "d \<le> 1" by (simp_all add: d_def pow2_def)
  have x1: "0 < r * (255 / 256)" "r * (255 / 256) \<le> 2 ^ 127" using r0 assms(2) by simp_all
  obtain r1 where r1: "round32 (r * (255 / 256)) = Fin r1" "0 \<le> r1"
    "r1 \<le> r * (255 / 256) * (1 + 1 / 2 ^ 24) + d"
    using round32_upper [OF x1] unfolding d_def by blast
  have "pow2 (- 150) < r * (255 / 256)" using assms(1) pow2_pos [of "- 149"] by (simp add: pow2_150)
  then have "fpositive (round32 (r * (255 / 256)))" by (rule round32_positive)
  then have p1: "pow2 (- 149) \<le> r1" using r1(1) by (simp add: fpositive_def)
  then have r10: "0 < r1" using pow2_pos [of "- 149"] by linarith
  have "r1 \<le> 32761 * (255 / 256) * (1 + 1 / 2 ^ 24) + 1"
  proof -
    have "r * (255 / 256) * (1 + 1 / 2 ^ 24) \<le> 32761 * (255 / 256) * (1 + 1 / 2 ^ 24)"
      using assms(2) by (intro mult_right_mono) simp_all
    then show ?thesis using r1(3) d(2) by linarith
  qed
  then have "r1 \<le> 2 ^ 127" by simp
  then obtain r2 where r2: "round32 r1 = Fin r2" "0 \<le> r2" "r2 \<le> r1 * (1 + 1 / 2 ^ 24) + d"
    using round32_upper [OF r10] unfolding d_def by blast
  have "pow2 (- 150) < r1" using p1 pow2_pos [of "- 149"] by (simp add: pow2_150)
  then have "fpositive (round32 r1)" by (rule round32_positive)
  then have p2: "pow2 (- 149) \<le> r2" using r2(1) by (simp add: fpositive_def)
  have "r1 * (1 + 1 / 2 ^ 24) \<le> (r * (255 / 256) * (1 + 1 / 2 ^ 24) + d) * (1 + 1 / 2 ^ 24)"
    using r1(3) by (intro mult_right_mono) simp_all
  also have "\<dots> = r * ((255 / 256) * (1 + 1 / 2 ^ 24) * (1 + 1 / 2 ^ 24)) + d * (1 + 1 / 2 ^ 24)"
    by (simp add: algebra_simps)
  also have "\<dots> \<le> r * (511 / 512) + d * 2"
    using r0 d(1) by (intro add_mono mult_left_mono) simp_all
  finally have "r2 \<le> r * (511 / 512) + 3 * d" using r2(3) by linarith
  moreover have "level_update (Fin r) (Fin 0) = Fin r2"
    unfolding level_update_def c255 c1 using r1(1) r2(1) by (simp add: round32_def)
  ultimately show ?thesis using p2 unfolding d_def by blast
qed

lemma silence_level:
  "weight (silence n) = 0 \<and> last_sample (silence n) = 0 \<and>
   (\<exists>r. decorrelated_level (silence n) = Fin r \<and> pow2 (- 149) \<le> r \<and>
        r \<le> 32760 * (511 / 512) ^ n + 1536 * pow2 (- 150))"
proof (induction n)
  case 0
  have "silence 0 = fresh" by (simp add: silence_def scan_audio_def)
  moreover have "weight fresh = 0" "last_sample fresh = 0"
    by (simp_all add: fresh_def scan_audio_init_def static_init_def)
  moreover have "pow2 (- 149) \<le> 32760" "(0::rat) \<le> 1536 * pow2 (- 150)"
    by (simp_all add: pow2_def)
  ultimately show ?case by (simp add: fresh_level)
next
  case (Suc n)
  then obtain r where r: "weight (silence n) = 0" "last_sample (silence n) = 0"
    "decorrelated_level (silence n) = Fin r" "pow2 (- 149) \<le> r"
    "r \<le> 32760 * (511 / 512) ^ n + 1536 * pow2 (- 150)"
    by blast
  define d where "d = pow2 (- 150)"
  have d: "0 < d" "1536 * d \<le> 1" by (simp_all add: d_def pow2_def)
  have "(511 / 512 :: rat) ^ n \<le> 1" by (intro power_le_one) simp_all
  then have r32761: "r \<le> 32761" using r(5) d(2) unfolding d_def by linarith
  have "replicate (Suc n) (0 :: int16) = replicate n 0 @ [0]"
    by (simp add: replicate_append_same)
  then obtain out where
    st: "silence (Suc n) = fst (sample_step 0 (silence n) out 0)"
    unfolding silence_def using scan_audio_snoc [of fresh "replicate n 0" 0 None 0] by simp
  have f0: "float_of_int 0 = Fin 0" by (simp add: float_of_int_def round32_def)
  obtain r' where r': "level_update (Fin r) (Fin 0) = Fin r'" "pow2 (- 149) \<le> r'"
    "r' \<le> r * (511 / 512) + 3 * d"
    using level_update_zero [OF r(4) r32761] unfolding d_def by blast
  have "r * (511 / 512) \<le> (32760 * (511 / 512) ^ n + 1536 * d) * (511 / 512)"
    using r(5) unfolding d_def by (intro mult_right_mono) simp_all
  then have "r' \<le> 32760 * (511 / 512) ^ Suc n + 1536 * d"
    using r'(3) by (simp add: algebra_simps)
  moreover have "decorrelated_level (silence (Suc n)) = Fin r'"
    unfolding st sample_step_dsp r decorrelate_zero using r'(1) by (simp add: f0)
  moreover have "weight (silence (Suc n)) = 0" "last_sample (silence (Suc n)) = 0"
    unfolding st sample_step_dsp r decorrelate_zero by simp_all
  ultimately show ?case using r'(2) unfolding d_def by blast
qed

lemma sign_step:
  fixes a b :: int16
  shows "push_bit 1 (drop_bit 30 (sint a XOR sint b) OR 1) =
           (if (sint a < 0) = (sint b < 0) then 2 else - 2 :: int)"
proof -
  define c where "c = sint (a XOR b)"
  have x: "sint a XOR sint b = c" by (simp add: c_def signed_xor_eq)
  have lo: "- (2 ^ 15) \<le> c" using sint_greater_eq [of "a XOR b"] by (simp add: c_def)
  have hi: "c < 2 ^ 15" using sint_less [of "a XOR b"] by (simp add: c_def)
  have s: "c < 0 \<longleftrightarrow> (sint a < 0) \<noteq> (sint b < 0)"
    using bit_last_iff [of "a XOR b"] bit_last_iff [of a] bit_last_iff [of b]
    by (simp add: c_def bit_xor_iff)
  have d: "drop_bit 30 c = (if c < 0 then - 1 else 0)"
  proof (cases "c < 0")
    case True
    have "c div 2 ^ 30 = - 1"
      using True lo by (intro int_div_pos_eq [of c "2 ^ 30" "- 1" "c + 2 ^ 30"]) simp_all
    then show ?thesis using True by (simp add: drop_bit_eq_div)
  next
    case False
    have "c div 2 ^ 30 = 0"
      using False hi by (intro int_div_pos_eq [of c "2 ^ 30" 0 c]) simp_all
    then show ?thesis using False by (simp add: drop_bit_eq_div)
  qed
  show ?thesis unfolding x d using s by auto
qed

lemma scan_audio_Cons:
  "fst (scan_audio s (x # xs) out flags) =
     fst (scan_audio (fst (sample_step flags s out x)) xs
            (fst (snd (snd (sample_step flags s out x)))) flags)"
proof -
  obtain s1 d1 o1 m1 where a: "sample_step flags s out x = (s1, d1, o1, m1)"
    by (cases "sample_step flags s out x") auto
  show ?thesis
    using scan_loop_acc [of flags xs s1 "0 OR d1" o1 "[] @ m1"]
    by (simp add: scan_audio_def a case_prod_beta)
qed

lemma scan_audio_Nil: "fst (scan_audio s [] out flags) = s"
  by (simp add: scan_audio_def)

lemma fresh_decorr: "weight fresh = 0" "last_sample fresh = 0" "sample_index fresh = 0"
  by (simp_all add: fresh_def scan_audio_init_def static_init_def)

lemma loud2_decorr: "weight loud2 = 2 \<and> last_sample loud2 = 32767"
proof -
  have a: "decorrelate 0 0 32767 = (32767, 0)" by (simp add: decorrelate_def)
  have b: "decorrelate 0 32767 32767 = (32767, 2)" by code_simp
  show ?thesis
    unfolding loud2_def scan_audio_Cons scan_audio_Nil sample_step_dsp fresh_decorr a
    by (simp add: b)
qed

lemma decorr_10: "decorrelate 2 32767 10 = (- 54, 0)"
  by code_simp

lemma weight_spec_10: "weight_spec 2 32767 10 = 4"
  by code_simp

lemma sample_step_index:
  assumes "sample_index s + 1 \<le> 1382400000"
  shows "sample_index (fst (sample_step flags s out x)) = sample_index s + 1"
  using assms
  by (simp add: sample_step_def Let_def case_prod_beta tick_state index_wrap_def
        capture_peak_dsp check_peaks_dsp)






lemma capture_peak_closes:
  "closes wl s \<Longrightarrow> capture_peak flags wl s = close_peak flags s"
  "\<not> closes wl s \<Longrightarrow> peak_threshold (fst (capture_peak flags wl s)) = peak_threshold s"
  "\<not> closes wl s \<Longrightarrow> peak_buffer (fst (capture_peak flags wl s)) = peak_buffer s"
  by (auto simp: closes_def capture_peak_def)

lemma close_peak_result:
  "peak_threshold (fst (close_peak flags s)) =
     (if fgt (float_of_int (height (current_peak s))) (peak_threshold s)
      then fmul (peak_threshold s) (lit (101 / 100)) else peak_threshold s)"
  "peak_buffer (fst (close_peak flags s)) =
     (if fgt (float_of_int (height (current_peak s))) (peak_threshold s) \<and>
         fgt (float_of_int (height (current_peak s)))
             (fmul (fmul (peak_threshold s) (lit (101 / 100))) (THRESHOLD_SCALING flags))
      then fst (add_peak (closed_peak s) flags (peak_buffer s)) else peak_buffer s)"
  by (simp_all add: close_peak_def Let_def case_prod_beta closed_peak_def)


lemma close_peak_shape:
  "peak_started (fst (close_peak flags s)) = 0"
  "area (current_peak (fst (close_peak flags s))) = area (current_peak s)"
  "height (current_peak (fst (close_peak flags s))) = height (current_peak s)"
  by (simp_all add: close_peak_def Let_def case_prod_beta)

text \<open>An excursion that opens at \<open>w1\<close>, rises to \<open>w2\<close> and closes at once: the sample that
  raises the height adds nothing to the area.\<close>

lemma excursion_rise_fall:
  fixes flags :: int
  assumes "peak_started s = 0" "0 < w1" "w1 < w2" "w3 \<le> 0"
  defines "s1 \<equiv> fst (capture_peak flags w1 s)"
  defines "s2 \<equiv> fst (capture_peak flags w2 s1)"
  defines "s3 \<equiv> fst (capture_peak flags w3 s2)"
  shows "closes w3 s2 \<and> peak_started s3 = 0 \<and>
         area (current_peak s3) = w1 \<and> height (current_peak s3) = w2"
proof -
  have 1: "peak_started s1 = 1" "area (current_peak s1) = w1" "height (current_peak s1) = w1"
    using assms(1,2) by (simp_all add: s1_def capture_peak_def)
  have 2: "peak_started s2 = 1" "area (current_peak s2) = w1" "height (current_peak s2) = w2"
    using 1 assms(3) by (simp_all add: s2_def capture_peak_def)
  have c: "closes w3 s2" using 2 assms(2,3,4) by (simp add: closes_def)
  then have "s3 = fst (close_peak flags s2)" by (simp add: s3_def capture_peak_closes)
  then show ?thesis using c 2 by (simp add: close_peak_shape)
qed

lemma int16_range_sint: "int16_range (sint (w :: int16))"
  using sint_greater_eq [of w] sint_less [of w] by (simp add: int16_range_def)

lemma add_peak_subset: "set (fst (add_peak p flags buf)) \<subseteq> insert p (set buf)"
proof -
  have "set (take k buf) \<subseteq> set buf" "set (drop k buf) \<subseteq> set buf" for k
    by (simp_all add: set_take_subset set_drop_subset)
  then show ?thesis
    by (auto simp: add_peak_def case_prod_beta dest: in_set_takeD in_set_dropD)
qed

lemma close_peak_heights:
  assumes "heights_ok s"
  shows "heights_ok (fst (close_peak flags s))"
proof -
  have "\<forall>q\<in>set (fst (add_peak (closed_peak s) flags (peak_buffer s))). int16_range (height q)"
    using assms add_peak_subset [of "closed_peak s" flags "peak_buffer s"]
    by (auto simp: heights_ok_def closed_peak_def)
  then show ?thesis
    using assms
    by (simp add: heights_ok_def close_peak_result close_peak_shape)
qed

lemma capture_peak_heights:
  assumes "heights_ok s" "int16_range wl"
  shows "heights_ok (fst (capture_peak flags wl s))"
proof (cases "closes wl s")
  case True
  then show ?thesis using assms(1) by (simp add: capture_peak_closes close_peak_heights)
next
  case False
  then show ?thesis
    using assms by (auto simp: capture_peak_def closes_def heights_ok_def)
qed

lemma check_peaks_heights:
  assumes "\<forall>p\<in>set (peak_buffer s). int16_range (height p)"
  shows "\<forall>p\<in>set (peak_buffer (fst (check_peaks flags s))). int16_range (height p)"
proof -
  have e: "\<forall>p\<in>set (expire_peaks (sample_index s) (peak_buffer s)). int16_range (height p)"
    using assms expire_peaks_subset [of "sample_index s" "peak_buffer s"] by blast
  have "peak_buffer (fst (check_peaks flags s)) = [] \<or>
        peak_buffer (fst (check_peaks flags s)) =
          map (bell_bump (sample_index s) (filtered_level s))
            (expire_peaks (sample_index s) (peak_buffer s))"
    using check_peaks_result [of flags s] by (auto simp: Let_def split: if_splits)
  then show ?thesis using e by (auto simp: bell_bump_def)
qed

lemma tick_heights:
  assumes "heights_ok s"
  shows "heights_ok (fst (tick flags s))"
proof -
  have "\<forall>p\<in>set (peak_buffer (fst (check_peaks flags (s\<lparr>sample_index := sample_index s + 1\<rparr>)))).
          int16_range (height p)"
    using assms by (intro check_peaks_heights) (simp add: heights_ok_def)
  then show ?thesis
    using assms by (simp add: heights_ok_def tick_state index_wrap_dsp check_peaks_dsp)
qed

lemma sample_step_heights:
  assumes "heights_ok s"
  shows "heights_ok (fst (sample_step flags s out x))"
proof -
  have "heights_ok (s\<lparr>weight := w, last_sample := l, decorrelated_level := dl,
            sample_window := win, window_index := i, window_sum := ws,
            bell_biquad := f, filtered_level := fl\<rparr>)" for w l dl win i ws f fl
    using assms by (simp add: heights_ok_def)
  then show ?thesis
    by (simp add: sample_step_def Let_def case_prod_beta tick_heights capture_peak_heights
          int16_range_sint)
qed

lemma reachable_heights:
  "\<forall>p\<in>set (peak_buffer (fst (scan_audio fresh in_samples out_samples flags))).
      int16_range (height p)"
proof -
  have "heights_ok fresh"
    by (simp add: heights_ok_def fresh_def scan_audio_init_def static_init_def zero_peak_def
          int16_range_def)
  then have "heights_ok (fst (scan_audio fresh in_samples out_samples flags))"
    unfolding scan_audio_def
    by (intro scan_loop_invariant [of heights_ok]) (simp_all add: sample_step_heights)
  then show ?thesis by (simp add: heights_ok_def)
qed

section \<open>The properties\<close>

text \<open>
  Claim C1. At an analysis tick, with the heights of the buffered peaks in the range of
  \<^verbatim>\<open>int16_t\<close> (as they are in every state a fresh detector reaches, \<open>reachable_heights\<close>):
  \<^verbatim>\<open>check_peaks\<close> sets the KNOCK bit exactly when, in the buffer left by the expiry loop,
  some three peaks \<open>i < j < k\<close> satisfy \<open>knock_triple_spec\<close>: the span strictly between 4000 and
  12000, the three widths below 512, \<open>p3.time + span / 2 < sample_index\<close>, the ratio of the
  larger gap to the smaller below 1.1, or below 1.2 when the bit \<^verbatim>\<open>SCAN_HIGH_SENSITIVITY\<close> is
  set, and no other peak strictly inside \<open>(p1.time - span / 3, p3.time + span / 3)\<close> higher
  than the lowest of the three times 0.5, or times 0.75 when that bit is set. Then the
  buffer is left empty; and the search itself ends with \<open>(1, [])\<close> when there is such a triple
  and with \<open>(0, buf)\<close>, the buffer untouched, when there is none.
\<close>

theorem knock_detection:
  assumes "\<forall>p\<in>set (peak_buffer s). int16_range (height p)"
  shows "let buf = expire_peaks (sample_index s) (peak_buffer s);
             found = (\<exists>i j k. i < j \<and> j < k \<and> k < length buf \<and>
                        knock_triple_spec flags (sample_index s) buf i j k)
         in (flag_set (fst (snd (check_peaks flags s))) SCAN_KNOCK_DETECTED \<longleftrightarrow> found) \<and>
            (found \<longrightarrow> peak_buffer (fst (check_peaks flags s)) = []) \<and>
            core (knock_loop1 flags (sample_index s) 0 (0, buf, [])) =
              (if found then (1, []) else (0, buf))"
proof -
  define si where "si = sample_index s"
  define buf where "buf = expire_peaks si (peak_buffer s)"
  define found where "found \<longleftrightarrow> (\<exists>i j k. i < j \<and> j < k \<and> k < length buf \<and>
                        knock_triple_spec flags si buf i j k)"
  have r: "int16_range (height (buf ! i))" if "i < length buf" for i
    using assms expire_peaks_subset [of si "peak_buffer s"] that
    unfolding buf_def by (meson nth_mem subsetD)
  have "knock_test flags si buf i j k = knock_triple_spec flags si buf i j k"
    if "i < j" "j < k" "k < length buf" for i j k
    using that by (intro knock_test_spec r) simp_all
  then have f: "found1 flags si buf 0 = found"
    unfolding found1_all found_def by blast
  have c: "(fst (snd (check_peaks flags s)), peak_buffer (fst (check_peaks flags s))) =
     (if found then (1, [])
         else if bell_reach si (filtered_level s) buf 0 then (2, [])
         else (0, map (bell_bump si (filtered_level s)) buf))"
    unfolding check_peaks_result Let_def si_def [symmetric] buf_def [symmetric] f ..
  have k: "core (knock_loop1 flags si 0 (0, buf, [])) = (if found then (1, []) else (0, buf))"
    unfolding knock_search_core f ..
  have "(flag_set (fst (snd (check_peaks flags s))) SCAN_KNOCK_DETECTED \<longleftrightarrow> found) \<and>
            (found \<longrightarrow> peak_buffer (fst (check_peaks flags s)) = [])"
    using c by (cases found; cases "bell_reach si (filtered_level s) buf 0") (simp_all add: flag_bits)
  then show ?thesis
    unfolding Let_def si_def [symmetric] buf_def [symmetric] found_def [symmetric]
    using k by simp
qed

text \<open>
  The property at three buffers. At \<open>knock_state\<close> the code reports a knock, so the buffer
  holds such a triple, and it is emptied. At \<open>ratio_state\<close> the ratio of the gaps is 1.12:
  no triple and no knock in the normal mode, a triple and a knock in the high-sensitivity
  mode. At \<open>crowd_state\<close> a fourth peak of height 51 lies among three of height 100: it is
  above 0.5 times 100 and not above 0.75 times 100, so there is no triple and no knock in
  the normal mode, a triple and a knock in the high-sensitivity mode.
\<close>

theorem knock_detection_witness:
  "(\<exists>i j k. i < j \<and> j < k \<and> k < length (peak_buffer knock_state) \<and>
      knock_triple_spec 0 11200 (peak_buffer knock_state) i j k) \<and>
   peak_buffer (fst (check_peaks 0 knock_state)) = [] \<and>
   \<not> (\<exists>i j k. i < j \<and> j < k \<and> k < length (peak_buffer ratio_state) \<and>
      knock_triple_spec 0 17600 (peak_buffer ratio_state) i j k) \<and>
   \<not> flag_set (fst (snd (check_peaks 0 ratio_state))) SCAN_KNOCK_DETECTED \<and>
   (\<exists>i j k. i < j \<and> j < k \<and> k < length (peak_buffer ratio_state) \<and>
      knock_triple_spec 1 17600 (peak_buffer ratio_state) i j k) \<and>
   flag_set (fst (snd (check_peaks 1 ratio_state))) SCAN_KNOCK_DETECTED \<and>
   peak_buffer (fst (check_peaks 1 ratio_state)) = [] \<and>
   \<not> (\<exists>i j k. i < j \<and> j < k \<and> k < length (peak_buffer crowd_state) \<and>
      knock_triple_spec 0 17600 (peak_buffer crowd_state) i j k) \<and>
   \<not> flag_set (fst (snd (check_peaks 0 crowd_state))) SCAN_KNOCK_DETECTED \<and>
   (\<exists>i j k. i < j \<and> j < k \<and> k < length (peak_buffer crowd_state) \<and>
      knock_triple_spec 1 17600 (peak_buffer crowd_state) i j k) \<and>
   flag_set (fst (snd (check_peaks 1 crowd_state))) SCAN_KNOCK_DETECTED \<and>
   peak_buffer (fst (check_peaks 1 crowd_state)) = [] \<and>
   \<not> flt (fdiv (float_of_int 5600) (float_of_int 5000)) (lit (11 / 10)) \<and>
   flt (fdiv (float_of_int 5600) (float_of_int 5000)) (lit (12 / 10)) \<and>
   fgt (float_of_int 51) (fmul (float_of_int 100) (lit (5 / 10))) \<and>
   \<not> fgt (float_of_int 51) (fmul (float_of_int 100) (lit (75 / 100)))"
proof -
  have h: "\<forall>p\<in>set (peak_buffer knock_state). int16_range (height p)"
    by (simp add: knock_state_def int16_range_def)
  have e: "expire_peaks 11200 (peak_buffer knock_state) = peak_buffer knock_state"
    by (simp add: knock_state_def)
  have si: "sample_index knock_state = 11200" by (simp add: knock_state_def)
  have d: "flag_set (fst (snd (check_peaks 0 knock_state))) SCAN_KNOCK_DETECTED"
    by code_simp
  note t = knock_detection [OF h, of 0, unfolded Let_def e si]
  have f: "\<exists>i j k. i < j \<and> j < k \<and> k < length (peak_buffer knock_state) \<and>
      knock_triple_spec 0 11200 (peak_buffer knock_state) i j k"
    using d by (rule iffD1 [OF conjunct1 [OF t]])
  have b: "peak_buffer (fst (check_peaks 0 knock_state)) = []"
    using f by (rule mp [OF conjunct1 [OF conjunct2 [OF t]]])
  have hr: "\<forall>p\<in>set (peak_buffer ratio_state). int16_range (height p)"
    by (simp add: ratio_state_def int16_range_def)
  have er: "expire_peaks 17600 (peak_buffer ratio_state) = peak_buffer ratio_state"
    by (simp add: ratio_state_def)
  have sr: "sample_index ratio_state = 17600" by (simp add: ratio_state_def)
  have dr0: "\<not> flag_set (fst (snd (check_peaks 0 ratio_state))) SCAN_KNOCK_DETECTED"
    by code_simp
  have dr1: "flag_set (fst (snd (check_peaks 1 ratio_state))) SCAN_KNOCK_DETECTED"
    by code_simp
  note r0 = knock_detection [OF hr, of 0, unfolded Let_def er sr]
  note r1 = knock_detection [OF hr, of 1, unfolded Let_def er sr]
  have fr0: "\<not> (\<exists>i j k. i < j \<and> j < k \<and> k < length (peak_buffer ratio_state) \<and>
      knock_triple_spec 0 17600 (peak_buffer ratio_state) i j k)"
    using dr0 by (rule contrapos_nn) (rule iffD2 [OF conjunct1 [OF r0]])
  have fr1: "\<exists>i j k. i < j \<and> j < k \<and> k < length (peak_buffer ratio_state) \<and>
      knock_triple_spec 1 17600 (peak_buffer ratio_state) i j k"
    using dr1 by (rule iffD1 [OF conjunct1 [OF r1]])
  have br1: "peak_buffer (fst (check_peaks 1 ratio_state)) = []"
    using fr1 by (rule mp [OF conjunct1 [OF conjunct2 [OF r1]]])
  have hc: "\<forall>p\<in>set (peak_buffer crowd_state). int16_range (height p)"
    by (simp add: crowd_state_def int16_range_def)
  have ec: "expire_peaks 17600 (peak_buffer crowd_state) = peak_buffer crowd_state"
    by (simp add: crowd_state_def)
  have sc: "sample_index crowd_state = 17600" by (simp add: crowd_state_def)
  have dc0: "\<not> flag_set (fst (snd (check_peaks 0 crowd_state))) SCAN_KNOCK_DETECTED"
    by code_simp
  have dc1: "flag_set (fst (snd (check_peaks 1 crowd_state))) SCAN_KNOCK_DETECTED"
    by code_simp
  note c0 = knock_detection [OF hc, of 0, unfolded Let_def ec sc]
  note c1 = knock_detection [OF hc, of 1, unfolded Let_def ec sc]
  have fc0: "\<not> (\<exists>i j k. i < j \<and> j < k \<and> k < length (peak_buffer crowd_state) \<and>
      knock_triple_spec 0 17600 (peak_buffer crowd_state) i j k)"
    using dc0 by (rule contrapos_nn) (rule iffD2 [OF conjunct1 [OF c0]])
  have fc1: "\<exists>i j k. i < j \<and> j < k \<and> k < length (peak_buffer crowd_state) \<and>
      knock_triple_spec 1 17600 (peak_buffer crowd_state) i j k"
    using dc1 by (rule iffD1 [OF conjunct1 [OF c1]])
  have bc1: "peak_buffer (fst (check_peaks 1 crowd_state)) = []"
    using fc1 by (rule mp [OF conjunct1 [OF conjunct2 [OF c1]]])
  have g: "\<not> flt (fdiv (float_of_int 5600) (float_of_int 5000)) (lit (11 / 10))"
    "flt (fdiv (float_of_int 5600) (float_of_int 5000)) (lit (12 / 10))"
    "fgt (float_of_int 51) (fmul (float_of_int 100) (lit (5 / 10)))"
    "\<not> fgt (float_of_int 51) (fmul (float_of_int 100) (lit (75 / 100)))"
    by code_simp+
  from f b fr0 dr0 fr1 dr1 br1 fc0 dc0 fc1 dc1 bc1 g show ?thesis by (intro conjI)
qed

text \<open>
  Claim C2. At an analysis tick, for the buffer \<open>buf\<close> that the knock search leaves:
  \<^verbatim>\<open>check_peaks\<close> sets the BELL bit exactly when some peak of \<open>buf\<close> with
  \<open>time + 16000 > sample_index\<close> and \<open>filtered_level > 2 * filtered_level_at_start + 50\<close>
  reaches 5 hits with this tick, and then leaves the buffer empty; otherwise it leaves
  \<open>buf\<close> with \<open>filter_hits\<close> one more on exactly the peaks that satisfy the two conditions.
\<close>

theorem bell_confirmation:
  "let si = sample_index s; fl = filtered_level s;
       buf = fst (snd (knock_loop1 flags si 0 (0, expire_peaks si (peak_buffer s), [])));
       reach = (\<exists>p\<in>set buf. bell_cond_spec si fl p \<and> filter_hits p + 1 = 5)
   in (flag_set (fst (snd (check_peaks flags s))) SCAN_BELL_DETECTED \<longleftrightarrow> reach) \<and>
      peak_buffer (fst (check_peaks flags s)) =
        (if reach then []
         else map (\<lambda>p. if bell_cond_spec si fl p then p\<lparr>filter_hits := filter_hits p + 1\<rparr> else p) buf)"
proof -
  define si where "si = sample_index s"
  define fl where "fl = filtered_level s"
  define buf0 where "buf0 = expire_peaks si (peak_buffer s)"
  define buf where "buf = fst (snd (knock_loop1 flags si 0 (0, buf0, [])))"
  define reach where "reach \<longleftrightarrow> (\<exists>p\<in>set buf. bell_cond_spec si fl p \<and> filter_hits p + 1 = 5)"
  have b: "bell_bump si fl =
             (\<lambda>p. if bell_cond_spec si fl p then p\<lparr>filter_hits := filter_hits p + 1\<rparr> else p)"
    by (rule ext) (simp add: bell_bump_def bell_hit_spec)
  have rs: "bell_reach si fl buf 0 = reach"
    unfolding bell_reach_set reach_def bell_hit_spec ..
  have k: "buf = (if found1 flags si buf0 0 then [] else buf0)"
    using knock_search_core [of flags si buf0] by (simp add: core_def buf_def split: if_splits)
  have e: "\<not> bell_reach si fl [] 0" by (simp add: bell_reach_end)
  have c: "(fst (snd (check_peaks flags s)), peak_buffer (fst (check_peaks flags s))) =
     (if found1 flags si buf0 0 then (1, [])
         else if bell_reach si fl buf0 0 then (2, [])
         else (0, map (bell_bump si fl) buf0))"
    unfolding check_peaks_result Let_def si_def [symmetric] buf0_def [symmetric] fl_def [symmetric] ..
  have "(flag_set (fst (snd (check_peaks flags s))) SCAN_BELL_DETECTED \<longleftrightarrow> reach) \<and>
      peak_buffer (fst (check_peaks flags s)) = (if reach then [] else map (bell_bump si fl) buf)"
  proof (cases "found1 flags si buf0 0")
    case True
    then have "buf = []" using k by simp
    then have "\<not> reach" using rs e by simp
    then show ?thesis using c True \<open>buf = []\<close> by (simp add: flag_bits)
  next
    case False
    then have "buf = buf0" using k by simp
    then show ?thesis using c False rs
      by (cases reach) (simp_all add: flag_bits)
  qed
  then show ?thesis
    unfolding Let_def si_def [symmetric] fl_def [symmetric] buf0_def [symmetric]
      buf_def [symmetric] reach_def [symmetric] b
    by simp
qed

text \<open>
  The property at \<open>bell_state\<close>: the code reports a ring there, so a peak reaches its
  fifth hit, and the buffer is emptied.
\<close>

theorem bell_confirmation_witness:
  "(\<exists>p\<in>set (peak_buffer bell_state). bell_cond_spec 1600 (Fin 100) p \<and> filter_hits p + 1 = 5) \<and>
   peak_buffer (fst (check_peaks 0 bell_state)) = []"
proof -
  have k: "fst (snd (knock_loop1 0 1600 0 (0, expire_peaks 1600 (peak_buffer bell_state), []))) =
             peak_buffer bell_state"
    by code_simp
  have si: "sample_index bell_state = 1600" "filtered_level bell_state = Fin 100"
    by (simp_all add: bell_state_def)
  have d: "flag_set (fst (snd (check_peaks 0 bell_state))) SCAN_BELL_DETECTED"
    by code_simp
  note t = bell_confirmation [of bell_state 0, unfolded Let_def si k]
  have f: "\<exists>p\<in>set (peak_buffer bell_state). bell_cond_spec 1600 (Fin 100) p \<and> filter_hits p + 1 = 5"
    using d by (rule iffD1 [OF conjunct1 [OF t]])
  have "peak_buffer (fst (check_peaks 0 bell_state)) = []"
    using conjunct2 [OF t] f by simp
  with f show ?thesis by (rule conjI)
qed




text \<open>
  Claim C4, as the code has it. The decorrelator's output is
  \<open>y = x - ((weight * last_sample + 512) >> 10)\<close>, stored as an \<^verbatim>\<open>int16_t\<close>, and it is what
  the tap \<^verbatim>\<open>SCAN_OUTP_DECORR_AUDIO\<close> writes. The weight moves when \<open>y\<close> and the last raw
  sample are both nonzero, by \<open>(((y XOR last_sample) >> 30) | 1) << 1\<close>: by \<open>+2\<close> when the
  output \<open>y\<close> and the last raw sample agree in sign and by \<open>-2\<close> when they do not. The last
  sample becomes the raw \<open>x\<close>.
\<close>

theorem decorrelator_step:
  "fst (decorrelate (weight s) (last_sample s) x) =
     word_of_int (sint x - drop_bit 10 (sint (weight s) * sint (last_sample s) + 512)) \<and>
   fst (snd (snd (sample_step SCAN_OUTP_DECORR_AUDIO s (Some []) x))) =
     Some [fst (decorrelate (weight s) (last_sample s) x)] \<and>
   weight (fst (sample_step flags s out_samples x)) =
     (let y = fst (decorrelate (weight s) (last_sample s) x)
      in if y \<noteq> 0 \<and> last_sample s \<noteq> 0
         then word_of_int
                (sint (weight s) + push_bit 1 (drop_bit 30 (sint y XOR sint (last_sample s)) OR 1))
         else weight s) \<and>
   weight (fst (sample_step flags s out_samples x)) =
     (let y = fst (decorrelate (weight s) (last_sample s) x)
      in if y \<noteq> 0 \<and> last_sample s \<noteq> 0
         then (if (sint y < 0) = (sint (last_sample s) < 0) then weight s + 2 else weight s - 2)
         else weight s) \<and>
   last_sample (fst (sample_step flags s out_samples x)) = x"
proof -
  have o: "fst (snd (snd (sample_step SCAN_OUTP_DECORR_AUDIO s (Some []) x))) =
     Some [fst (decorrelate (weight s) (last_sample s) x)]"
    by (simp add: sample_step_def Let_def case_prod_beta outp_def flag_set_def)
  have w: "weight (fst (sample_step flags s out_samples x)) =
     (let y = fst (decorrelate (weight s) (last_sample s) x)
      in if y \<noteq> 0 \<and> last_sample s \<noteq> 0
         then word_of_int
                (sint (weight s) + push_bit 1 (drop_bit 30 (sint y XOR sint (last_sample s)) OR 1))
         else weight s)"
    unfolding sample_step_dsp by (simp add: decorrelate_def Let_def)
  have w2: "(word_of_int (sint (weight s) + (if c then 2 else - 2)) :: int16) =
              (if c then weight s + 2 else weight s - 2)" for c
    by simp
  have w3: "weight (fst (sample_step flags s out_samples x)) =
     (let y = fst (decorrelate (weight s) (last_sample s) x)
      in if y \<noteq> 0 \<and> last_sample s \<noteq> 0
         then (if (sint y < 0) = (sint (last_sample s) < 0) then weight s + 2 else weight s - 2)
         else weight s)"
    unfolding w Let_def sign_step w2 ..
  have d: "fst (decorrelate (weight s) (last_sample s) x) =
     word_of_int (sint x - drop_bit 10 (sint (weight s) * sint (last_sample s) + 512))"
    by (simp add: decorrelate_def Let_def)
  have l: "last_sample (fst (sample_step flags s out_samples x)) = x"
    by (rule sample_step_dsp)
  from d o w w3 l show ?thesis by (intro conjI)
qed

text \<open>
  After two samples at full scale the weight is 2. The sample 10 that follows is positive
  like the one before it, so the update worded on the raw inputs gives 4; the decorrelated
  sample is \<open>10 - 64 = -54\<close>, and the code moves the weight down to 0.
\<close>

theorem decorrelator_counterexample:
  "weight loud2 = 2 \<and> last_sample loud2 = 32767 \<and>
   weight (fst (sample_step 0 loud2 None 10)) = 0 \<and>
   weight_spec (weight loud2) (last_sample loud2) 10 = 4"
  using loud2_decorr by (simp add: sample_step_dsp decorr_10 weight_spec_10)

text \<open>
  Claim C5 fails on the code. A sample that raises the height of the open peak is not added
  to its area: an excursion with the window levels 1, 5 and 0 closes with height 5 and
  area 1.
\<close>

theorem area_below_height:
  "closes 0 rise2 \<and> peak_started fall3 = 0 \<and>
   height (current_peak fall3) = 5 \<and> area (current_peak fall3) = 1"
proof -
  have "peak_started static_init = 0" by (simp add: static_init_def)
  from excursion_rise_fall [OF this, of 1 5 0 0]
  show ?thesis by (simp add: rise1_def rise2_def fall3_def)
qed

text \<open>
  Claim C6, as the code has it. \<^verbatim>\<open>scan_audio_init\<close> sets the bell filter to its fresh
  coefficients and cleared delay lines and leaves every other static as it is; so a detector
  that differs from the loaded program in the bell filter alone scans, after it, as a fresh
  one does.
\<close>

theorem init_resets_biquad_only:
  "scan_audio_init s = s\<lparr>bell_biquad := bell_biquad fresh\<rparr> \<and>
   (s\<lparr>bell_biquad := zero_biquad\<rparr> = static_init \<longrightarrow>
      scan_audio (scan_audio_init s) in_samples out_samples flags =
        scan_audio fresh in_samples out_samples flags)"
proof -
  have a: "scan_audio_init s = s\<lparr>bell_biquad := bell_biquad fresh\<rparr>"
    by (simp add: scan_audio_init_def fresh_def)
  have "scan_audio_init s = fresh" if "s\<lparr>bell_biquad := zero_biquad\<rparr> = static_init"
  proof -
    have "scan_audio_init s = scan_audio_init (s\<lparr>bell_biquad := zero_biquad\<rparr>)"
      by (simp add: scan_audio_init_def)
    then show ?thesis using that by (simp add: fresh_def)
  qed
  then show ?thesis using a by simp
qed

text \<open>
  The property at \<open>dirty_biquad\<close>, whose only difference from the loaded statics is a delay
  line of the filter.
\<close>

theorem init_resets_biquad_only_witness:
  "scan_audio (scan_audio_init dirty_biquad) [1, 2] None 0 = scan_audio fresh [1, 2] None 0"
proof -
  have "dirty_biquad\<lparr>bell_biquad := zero_biquad\<rparr> = static_init"
    by (simp add: dirty_biquad_def static_init_def)
  then show ?thesis
    by (rule mp [OF conjunct2 [OF init_resets_biquad_only [of dirty_biquad "[1, 2]" None 0]]])
qed

text \<open>
  A detector used on one sample and then initialised again is not a fresh one: fed one more
  sample it stands at sample 2, where a fresh detector stands at sample 1.
\<close>

theorem init_counterexample:
  "sample_index (fst (scan_audio (scan_audio_init used1) [0] None 0)) = 2 \<and>
   sample_index (fst (scan_audio fresh [0] None 0)) = 1 \<and>
   fst (scan_audio (scan_audio_init used1) [0] None 0) \<noteq> fst (scan_audio fresh [0] None 0)"
proof -
  have u: "sample_index used1 = 1"
    unfolding used1_def scan_audio_Cons scan_audio_Nil
    by (simp add: sample_step_index fresh_decorr)
  have i: "sample_index (scan_audio_init used1) = 1"
    using u by (simp add: scan_audio_init_def)
  have a: "sample_index (fst (scan_audio (scan_audio_init used1) [0] None 0)) = 2"
    unfolding scan_audio_Cons scan_audio_Nil by (simp add: sample_step_index i)
  have b: "sample_index (fst (scan_audio fresh [0] None 0)) = 1"
    unfolding scan_audio_Cons scan_audio_Nil by (simp add: sample_step_index fresh_decorr)
  from a b have "fst (scan_audio (scan_audio_init used1) [0] None 0) \<noteq>
                 fst (scan_audio fresh [0] None 0)"
    by auto
  with a b show ?thesis by simp
qed

text \<open>
  Claim C7. Feeding a stream in batches, each call continuing from the statics the last
  one left and its result or-ed into \<open>detection\<close> as the caller does, gives the state, the
  detections, the diagnostic output and the printed lines of a single call on the
  concatenation; the states and detections after each sample are those of the single call;
  and scanning \<open>S1 @ S2\<close> returns the OR of the results of scanning \<open>S1\<close> and then \<open>S2\<close>.
\<close>

theorem batching:
  "feed flags bs (s, 0, out_samples, []) = scan_audio s (concat bs) out_samples flags \<and>
   feed_trace flags bs s out_samples = scan_trace flags (concat bs) s out_samples \<and>
   scan_audio s (S1 @ S2) out_samples flags =
     (case scan_audio s S1 out_samples flags of
        (s1, d1, o1, m1) \<Rightarrow>
          (case scan_audio s1 S2 o1 flags of
             (s2, d2, o2, m2) \<Rightarrow> (s2, d1 OR d2, o2, m1 @ m2))) \<and>
   fst (scan_audio s S1 out_samples flags) =
     last (s # map fst (scan_trace flags S1 s out_samples)) \<and>
   fst (snd (scan_audio s S1 out_samples flags)) =
     foldl (OR) 0 (map snd (scan_trace flags S1 s out_samples))"
  using feed_concat [of flags bs s out_samples] feed_trace_concat [of flags bs s out_samples]
    scan_audio_append [of s S1 S2 out_samples flags]
    scan_loop_trace [of flags S1 s 0 out_samples "[]"]
  unfolding scan_audio_def [of s S1] by (intro conjI) simp_all

text \<open>
  Claim C8. After every stream fed to a fresh detector (so after every sample of it),
  \<^verbatim>\<open>window_sum\<close> is the sum of the 256 entries of \<^verbatim>\<open>sample_window\<close>.
\<close>

theorem window_sum_invariant:
  "window_sum (fst (scan_audio fresh in_samples out_samples flags)) =
     (\<Sum>w\<leftarrow>sample_window (fst (scan_audio fresh in_samples out_samples flags)). sint w)"
proof -
  have "window_ok (fst (scan_audio fresh in_samples out_samples flags))"
    unfolding scan_audio_def
    by (rule scan_loop_invariant [of window_ok]) (simp_all add: sample_step_window_ok window_ok_fresh)
  then show ?thesis by (simp add: window_ok_def)
qed

text \<open>
  Claim C9, as the code has it. After every stream fed to a fresh detector the decorrelated
  level is strictly positive, so the normalizer never divides by zero. No clamp does this:
  a positive level stays positive under the rounded update, which never rounds a value of
  at least the smallest subnormal, scaled by 255/256, down to zero.
\<close>

theorem decorrelated_level_positive:
  "flt (Fin 0) (decorrelated_level (fst (scan_audio fresh in_samples out_samples flags))) \<and>
   decorrelated_level (fst (scan_audio fresh in_samples out_samples flags)) \<noteq> Fin 0"
proof -
  have "fpositive (decorrelated_level (fst (scan_audio fresh in_samples out_samples flags)))"
    unfolding scan_audio_def
    by (rule scan_loop_invariant [of "\<lambda>s. fpositive (decorrelated_level s)"])
       (simp_all add: sample_step_level_positive fpositive_fresh)
  then have "flt (Fin 0) (decorrelated_level (fst (scan_audio fresh in_samples out_samples flags)))"
    by (rule fpositive_flt)
  then show ?thesis by auto
qed

text \<open>
  The level is not clamped at 1.0: after one second of silence it is below 1.
\<close>

theorem no_clamp_counterexample:
  "flt (decorrelated_level (fst (scan_audio fresh (replicate 16000 0) None 0))) (Fin 1)"
proof -
  obtain r where r: "decorrelated_level (silence 16000) = Fin r"
    "r \<le> 32760 * (511 / 512) ^ 16000 + 1536 * pow2 (- 150)"
    using silence_level [of 16000] by blast
  have "32760 * (511 / 512 :: rat) ^ 16000 \<le> 32760 * (1 / 2 ^ 31)"
    using decay_bound by (intro mult_left_mono) simp_all
  moreover have "32760 * (1 / 2 ^ 31) + 1536 * pow2 (- 150) < 1" by (simp add: pow2_def)
  ultimately have "r < 1" using r(2) by linarith
  then show ?thesis using r(1) by (simp add: silence_def)
qed

text \<open>
  Claim C10. For every state, stream, flags and \<^verbatim>\<open>out_samples\<close>, the state and the
  detections of \<^verbatim>\<open>scan_audio\<close> are those of the call with a null \<^verbatim>\<open>out_samples\<close> and with
  every flag bit but \<^verbatim>\<open>SCAN_HIGH_SENSITIVITY\<close> cleared; and a null \<^verbatim>\<open>out_samples\<close> stays
  null, nothing being written through it.
\<close>

theorem diagnostics_do_not_interfere:
  "fst (scan_audio s in_samples out_samples flags) =
     fst (scan_audio s in_samples None (flags AND SCAN_HIGH_SENSITIVITY)) \<and>
   fst (snd (scan_audio s in_samples out_samples flags)) =
     fst (snd (scan_audio s in_samples None (flags AND SCAN_HIGH_SENSITIVITY))) \<and>
   fst (snd (snd (scan_audio s in_samples None flags))) = None"
  unfolding scan_audio_def
  using scan_loop_hs [of flags in_samples s 0 "[]" out_samples "[]"]
    scan_loop_None [of flags in_samples s 0 "[]"]
  by simp

end
